theory Spec2Isabelle
  imports Complex_Main
begin

section \<open>The prioritized replay buffer of learn/utils.py\<close>

text \<open>
  The class \<open>PER_IS_ReplayBuffer\<close> is embedded with explicit state passing. A Python
  float is a real number, with \<open>float('inf')\<close> as a value of its own in the min tree and in
  the reward column; the additions of the sum tree and the subtraction of the descent
  round to the nearest double, and the stores into the numpy columns convert to the type
  of the column. Slot indices are natural numbers: a negative index, which a Python list
  would wrap around, is not an input of this model. An out-of-range list access, a
  division by zero, a power that Python refuses and a value that a column does not take
  are error values.
\<close>

subsection \<open>Values and errors\<close>

datatype error =
  IndexError | ZeroDivisionError | ComplexResult | NonFinite | NoReturn | ValueError | OverflowError

datatype pyval = PyNone | PyInt nat

datatype xreal = Fin real | PInf

fun xmin :: "xreal \<Rightarrow> xreal \<Rightarrow> xreal" where
  "xmin (Fin a) (Fin b) = Fin (min a b)"
| "xmin (Fin a) PInf = Fin a"
| "xmin PInf b = b"


definition bind_err :: "error + 'a \<Rightarrow> ('a \<Rightarrow> error + 'b) \<Rightarrow> error + 'b" where
  "bind_err m f = (case m of Inl e \<Rightarrow> Inl e | Inr x \<Rightarrow> f x)"

definition list_get :: "'a list \<Rightarrow> nat \<Rightarrow> error + 'a" where
  "list_get xs i = (if i < length xs then Inr (xs ! i) else Inl IndexError)"

definition list_set :: "'a list \<Rightarrow> nat \<Rightarrow> 'a \<Rightarrow> error + 'a list" where
  "list_set xs i v = (if i < length xs then Inr (xs[i := v]) else Inl IndexError)"

text \<open>
  What a store into a numpy column makes of the value it is given. The index is checked
  first; then the value is converted to the type of the column, and the conversion can
  raise.
\<close>

definition store :: "('v \<Rightarrow> error + 'a) \<Rightarrow> 'a list \<Rightarrow> nat \<Rightarrow> 'v \<Rightarrow> error + 'a list" where
  "store conv xs i v =
     (if i < length xs then bind_err (conv v) (\<lambda>x. Inr (xs[i := x])) else Inl IndexError)"

text \<open>
  A row of a two-dimensional array of width \<open>d\<close> takes a sequence of \<open>d\<close> numbers as it
  is and a sequence of one number repeated \<open>d\<close> times (numpy's broadcast); any other
  length raises ValueError.
\<close>

definition to_row :: "nat \<Rightarrow> real list \<Rightarrow> error + real list" where
  "to_row d xs =
     (if length xs = d then Inr xs
      else if length xs = 1 then Inr (replicate d (hd xs))
      else Inl ValueError)"

text \<open>
  An \<open>int32\<close> cell takes a Python integer in \<open>[-2^31, 2^31)\<close>; for any other numpy (from
  version 2 on) raises OverflowError. Earlier versions wrap an integer that fits a C
  long instead, so whatever is stated below about an action asks that it lies in the
  range.
\<close>

definition to_int32 :: "int \<Rightarrow> error + int" where
  "to_int32 n = (if - (2 ^ 31) \<le> n \<and> n < 2 ^ 31 then Inr n else Inl OverflowError)"

text \<open>
  Rounding to the nearest of two neighbouring integers, to the even one when they are
  equally near, and with it the rounding of a real number to a binary floating-point
  format of \<open>prec\<close> significant bits whose smallest normal exponent is \<open>emin\<close>: the
  spacing of the format around \<open>x\<close> is \<open>2 ^ (e - prec + 1)\<close>, where \<open>2 ^ e \<le> |x| < 2 ^ (e + 1)\<close>
  and \<open>e\<close> is not taken below \<open>emin\<close>.
\<close>

definition round_half_even :: "real \<Rightarrow> int" where
  "round_half_even x =
     (let n = \<lfloor>x\<rfloor>; d = x - of_int n in
      if d < 1 / 2 then n
      else if 1 / 2 < d then n + 1
      else if even n then n else n + 1)"

definition fl_round :: "nat \<Rightarrow> int \<Rightarrow> real \<Rightarrow> real" where
  "fl_round prec emin x =
     (if x = 0 then 0
      else
        (let e = max \<lfloor>log 2 \<bar>x\<bar>\<rfloor> emin;
             q = 2 powi (e - int prec + 1)
         in of_int (round_half_even (x / q)) * q))"

text \<open>
  A Python float that is not NaN, and its conversion to \<open>float32\<close>: 24 significant bits,
  exponents from \<open>-126\<close>, and infinity from \<open>2 ^ 128\<close> on. The conversion raises nothing.
\<close>

datatype pyfloat = Finite real | PosInf | NegInf

fun to_float32 :: "pyfloat \<Rightarrow> pyfloat" where
  "to_float32 (Finite x) =
     (let r = fl_round 24 (- 126) x in
      if 2 ^ 128 \<le> r then PosInf else if r \<le> - (2 ^ 128) then NegInf else Finite r)"
| "to_float32 PosInf = PosInf"
| "to_float32 NegInf = NegInf"

text \<open>
  A Python float is a double: 53 significant bits, exponents from \<open>-1022\<close>. The sum, the
  difference, the product and the quotient of two doubles are the real ones rounded to
  a double. A result beyond the largest double, for which Python has \<open>inf\<close> or, from
  \<open>**\<close>, an OverflowError, is outside this model.
\<close>

definition fl64 :: "real \<Rightarrow> real" where
  "fl64 x = fl_round 53 (- 1022) x"

definition fadd :: "real \<Rightarrow> real \<Rightarrow> real" where
  "fadd x y = fl64 (x + y)"

definition fsub :: "real \<Rightarrow> real \<Rightarrow> real" where
  "fsub x y = fl64 (x - y)"

definition fmul :: "real \<Rightarrow> real \<Rightarrow> real" where
  "fmul x y = fl64 (x * y)"

text \<open>
  Python's \<open>x ** y\<close> on floats: anything to the power 0 is 1, zero to a negative power
  raises ZeroDivisionError, a negative base with a fractional exponent leaves the floats
  (Python answers with a complex number), which is the error \<open>ComplexResult\<close> here.
  Otherwise the result is the real power rounded to a double: the C library's \<open>pow\<close> is
  taken as correctly rounded.
\<close>

definition py_pow :: "real \<Rightarrow> real \<Rightarrow> error + real" where
  "py_pow x y =
     (if y = 0 then Inr 1
      else if x = 0 then (if y < 0 then Inl ZeroDivisionError else Inr 0)
      else if 0 < x then Inr (fl64 (x powr y))
      else if y = of_int \<lfloor>y\<rfloor>
        then Inr (fl64 ((if even \<lfloor>y\<rfloor> then 1 else - 1) * ((- x) powr y)))
      else Inl ComplexResult)"

definition py_div :: "real \<Rightarrow> real \<Rightarrow> error + real" where
  "py_div a b = (if b = 0 then Inl ZeroDivisionError else Inr (fl64 (a / b)))"

subsection \<open>The buffer\<close>

text \<open>
  The five arguments of \<open>push\<close>, and also what one slot of the ring holds: sequences of
  floats for the two observations, a Python integer for the action, a float for the
  reward and a truth value.
\<close>

record transition =
  obs :: "real list"
  action :: int
  reward :: pyfloat
  next_obs :: "real list"
  done_flag :: bool

text \<open>
  The five numpy columns are lists of cells of their type: rows of \<open>float64\<close> for the two
  observations, \<open>int32\<close> for the action, \<open>float32\<close> for the reward, \<open>bool\<close> for \<open>done\<close>. The
  field \<open>state_dim\<close> is the width that the two observation arrays were created with, which
  numpy keeps as their shape.
\<close>

record buffer =
  capacity :: nat
  alpha :: real
  state_dim :: nat
  priority_sum :: "real list"
  priority_min :: "xreal list"
  max_priority :: real
  data_obs :: "real list list"
  data_action :: "int list"
  data_reward :: "pyfloat list"
  data_next_obs :: "real list list"
  data_done :: "bool list"
  next_idx :: nat
  size_buf :: nat

definition init_buffer :: "nat \<Rightarrow> real \<Rightarrow> nat \<Rightarrow> buffer" where
  "init_buffer cap a sd =
     \<lparr>capacity = cap, alpha = a, state_dim = sd,
      priority_sum = replicate (2 * cap) 0,
      priority_min = replicate (2 * cap) PInf,
      max_priority = 1,
      data_obs = replicate cap (replicate sd 0),
      data_action = replicate cap 0,
      data_reward = replicate cap (Finite 0),
      data_next_obs = replicate cap (replicate sd 0),
      data_done = replicate cap False,
      next_idx = 0, size_buf = 0\<rparr>"

subsection \<open>The two trees\<close>

text \<open>
  The while loops of \<open>_set_priority_min\<close> and \<open>_set_priority_sum\<close> differ only in the
  operation that combines the two children, so the loop is written once, with that
  operation as a parameter.
\<close>

function set_priority_loop :: "('a \<Rightarrow> 'a \<Rightarrow> 'a) \<Rightarrow> 'a list \<Rightarrow> nat \<Rightarrow> error + 'a list" where
  "set_priority_loop f xs idx =
     (if 2 \<le> idx then
        (case list_get xs (2 * (idx div 2)) of
           Inl e \<Rightarrow> Inl e
         | Inr l \<Rightarrow>
            (case list_get xs (2 * (idx div 2) + 1) of
               Inl e \<Rightarrow> Inl e
             | Inr r \<Rightarrow>
                (case list_set xs (idx div 2) (f l r) of
                   Inl e \<Rightarrow> Inl e
                 | Inr xs' \<Rightarrow> set_priority_loop f xs' (idx div 2))))
      else Inr xs)"
  by pat_completeness auto
termination
  by (relation "measure (\<lambda>(f, xs, idx). idx)") auto

declare set_priority_loop.simps [simp del]

definition set_tree :: "('a \<Rightarrow> 'a \<Rightarrow> 'a) \<Rightarrow> nat \<Rightarrow> 'a list \<Rightarrow> nat \<Rightarrow> 'a \<Rightarrow> error + 'a list" where
  "set_tree f cap xs idx v =
     bind_err (list_set xs (idx + cap) v) (\<lambda>xs'. set_priority_loop f xs' (idx + cap))"

definition set_priority_min :: "buffer \<Rightarrow> nat \<Rightarrow> real \<Rightarrow> error + buffer" where
  "set_priority_min b idx priority_alpha =
     bind_err (set_tree xmin (capacity b) (priority_min b) idx (Fin priority_alpha))
       (\<lambda>t. Inr (b\<lparr>priority_min := t\<rparr>))"

definition set_priority_sum :: "buffer \<Rightarrow> nat \<Rightarrow> real \<Rightarrow> error + buffer" where
  "set_priority_sum b idx priority_alpha =
     bind_err (set_tree fadd (capacity b) (priority_sum b) idx priority_alpha)
       (\<lambda>t. Inr (b\<lparr>priority_sum := t\<rparr>))"

definition sum_root :: "buffer \<Rightarrow> error + real" where
  "sum_root b = list_get (priority_sum b) 1"

definition min_root :: "buffer \<Rightarrow> error + xreal" where
  "min_root b = list_get (priority_min b) 1"

text \<open>
  The descent of \<open>find_prefix_sum_idx\<close>. The loop has no bound of its own (started at
  index 0 it would stay there), so it is a partial function; the last argument collects
  the index of \<open>priority_sum\<close> read in each round, and the result carries that list.
\<close>

partial_function (option) find_prefix_loop ::
  "nat \<Rightarrow> real list \<Rightarrow> nat \<Rightarrow> real \<Rightarrow> nat list \<Rightarrow> (error + nat \<times> nat list) option" where
  "find_prefix_loop cap ps idx prefix_sum reads =
     (if idx < cap then
        (case list_get ps (idx * 2) of
           Inl e \<Rightarrow> Some (Inl e)
         | Inr l \<Rightarrow>
            if l > prefix_sum
            then find_prefix_loop cap ps (2 * idx) prefix_sum (reads @ [idx * 2])
            else find_prefix_loop cap ps (2 * idx + 1) (fsub prefix_sum l) (reads @ [idx * 2]))
      else Some (Inr (idx - cap, reads)))"

definition find_prefix_sum_idx :: "buffer \<Rightarrow> real \<Rightarrow> (error + nat \<times> nat list) option" where
  "find_prefix_sum_idx b prefix_sum =
     find_prefix_loop (capacity b) (priority_sum b) 1 prefix_sum []"

subsection \<open>push, update_priorities, sample\<close>

text \<open>
  \<open>push\<close> has no return statement: its result is \<open>None\<close>. The stores into the five
  numpy columns come first, each with the conversion of its column, then the cursor and
  the size, then the two trees.
\<close>

definition push :: "buffer \<Rightarrow> transition \<Rightarrow> error + pyval \<times> buffer" where
  "push b t =
     (let idx = next_idx b in
      bind_err (store (to_row (state_dim b)) (data_obs b) idx (obs t)) (\<lambda>c1.
      bind_err (store to_int32 (data_action b) idx (action t)) (\<lambda>c2.
      bind_err (store (\<lambda>r. Inr (to_float32 r)) (data_reward b) idx (reward t)) (\<lambda>c3.
      bind_err (store (to_row (state_dim b)) (data_next_obs b) idx (next_obs t)) (\<lambda>c4.
      bind_err (store Inr (data_done b) idx (done_flag t)) (\<lambda>c5.
      if capacity b = 0 then Inl ZeroDivisionError
      else
        (let b1 = b\<lparr>data_obs := c1, data_action := c2, data_reward := c3,
                      data_next_obs := c4, data_done := c5,
                      next_idx := (idx + 1) mod capacity b,
                      size_buf := min (capacity b) (size_buf b + 1)\<rparr> in
         bind_err (py_pow (max_priority b1) (alpha b1)) (\<lambda>priority_alpha.
         bind_err (set_priority_min b1 idx priority_alpha) (\<lambda>b2.
         bind_err (set_priority_sum b2 idx priority_alpha) (\<lambda>b3.
         Inr (PyNone, b3)))))))))))"

fun update_priorities_loop :: "buffer \<Rightarrow> (nat \<times> real) list \<Rightarrow> error + buffer" where
  "update_priorities_loop b [] = Inr b"
| "update_priorities_loop b ((idx, priority) # rest) =
     (let b1 = b\<lparr>max_priority := max (max_priority b) priority\<rparr> in
      bind_err (py_pow priority (alpha b1)) (\<lambda>priority_alpha.
      bind_err (set_priority_min b1 idx priority_alpha) (\<lambda>b2.
      bind_err (set_priority_sum b2 idx priority_alpha) (\<lambda>b3.
      update_priorities_loop b3 rest))))"

definition update_priorities :: "buffer \<Rightarrow> nat list \<Rightarrow> real list \<Rightarrow> error + buffer" where
  "update_priorities b indexes priorities =
     update_priorities_loop b (zip indexes priorities)"

definition is_full :: "buffer \<Rightarrow> bool" where
  "is_full b = (capacity b = size_buf b)"

definition len_buffer :: "buffer \<Rightarrow> nat" where
  "len_buffer b = size_buf b"

text \<open>
  The dictionary that \<open>sample\<close> returns: the weights are a \<open>float32\<close> array, the indexes
  an \<open>int32\<close> array, the other five entries rows of the five columns.
\<close>

record samples =
  weights :: "pyfloat list"
  indexes :: "int list"
  s_obs :: "real list list"
  s_action :: "int list"
  s_reward :: "pyfloat list"
  s_next_obs :: "real list list"
  s_done :: "bool list"

fun map_err :: "('a \<Rightarrow> error + 'b) \<Rightarrow> 'a list \<Rightarrow> error + 'b list" where
  "map_err f [] = Inr []"
| "map_err f (x # xs) =
     (case f x of
        Inl e \<Rightarrow> Inl e
      | Inr y \<Rightarrow> (case map_err f xs of Inl e \<Rightarrow> Inl e | Inr ys \<Rightarrow> Inr (y # ys)))"

text \<open>
  An index read back from the \<open>int32\<close> array is a numpy integer. Adding a Python integer
  to it gives an \<open>int32\<close> again: the Python integer has to fit (OverflowError if not, as
  numpy does from version 2 on), and the sum wraps around. A list, and a numpy array
  indexed by an integer array, count a negative index from the end.
\<close>

definition int32_add :: "int \<Rightarrow> int \<Rightarrow> error + int" where
  "int32_add a n =
     (if - (2 ^ 31) \<le> n \<and> n < 2 ^ 31 then Inr ((a + n + 2 ^ 31) mod 2 ^ 32 - 2 ^ 31)
      else Inl OverflowError)"

definition py_list_get :: "'a list \<Rightarrow> int \<Rightarrow> error + 'a" where
  "py_list_get xs i =
     (if 0 \<le> i \<and> i < int (length xs) then Inr (xs ! nat i)
      else if - int (length xs) \<le> i \<and> i < 0 then Inr (xs ! nat (int (length xs) + i))
      else Inl IndexError)"

text \<open>
  The first loop of \<open>sample\<close>: one draw of \<open>random.random()\<close> per round, given here as
  the function \<open>rnd\<close> from the round to the number drawn; the slot found goes into the
  \<open>int32\<close> array.
\<close>

definition draw_index :: "buffer \<Rightarrow> (nat \<Rightarrow> real) \<Rightarrow> nat \<Rightarrow> (error + int) option" where
  "draw_index b rnd i =
     (case sum_root b of
        Inl e \<Rightarrow> Some (Inl e)
      | Inr s \<Rightarrow>
         (case find_prefix_sum_idx b (fmul (rnd i) s) of
            None \<Rightarrow> None
          | Some (Inl e) \<Rightarrow> Some (Inl e)
          | Some (Inr (idx, reads)) \<Rightarrow> Some (to_int32 (int idx))))"

fun draw_indexes :: "buffer \<Rightarrow> (nat \<Rightarrow> real) \<Rightarrow> nat list \<Rightarrow> (error + int list) option" where
  "draw_indexes b rnd [] = Some (Inr [])"
| "draw_indexes b rnd (i # rest) =
     (case draw_index b rnd i of
        None \<Rightarrow> None
      | Some (Inl e) \<Rightarrow> Some (Inl e)
      | Some (Inr idx) \<Rightarrow>
         (case draw_indexes b rnd rest of
            None \<Rightarrow> None
          | Some (Inl e) \<Rightarrow> Some (Inl e)
          | Some (Inr idxs) \<Rightarrow> Some (Inr (idx # idxs))))"

text \<open>
  \<open>prob_min\<close> and \<open>max_weight\<close>. A root minimum of \<open>+inf\<close> over a non-zero sum leads
  into IEEE arithmetic on infinities, which the real numbers do not have: the error
  \<open>NonFinite\<close>. In a buffer built by the operations the sum is zero whenever the minimum is
  infinite, and the division raises first. The size, a Python integer, becomes a float
  in the product.
\<close>

definition max_weight_of :: "buffer \<Rightarrow> real \<Rightarrow> error + real" where
  "max_weight_of b beta =
     bind_err (min_root b) (\<lambda>m.
     bind_err (sum_root b) (\<lambda>s.
     if s = 0 then Inl ZeroDivisionError
     else (case m of
             PInf \<Rightarrow> Inl NonFinite
           | Fin mv \<Rightarrow>
               bind_err (py_div mv s) (\<lambda>prob_min.
               py_pow (fmul prob_min (fl64 (real (size_buf b)))) (- beta)))))"

text \<open>The weight of one drawn slot, as it is stored into the \<open>float32\<close> array.\<close>

definition weight_of :: "buffer \<Rightarrow> real \<Rightarrow> real \<Rightarrow> int \<Rightarrow> error + pyfloat" where
  "weight_of b beta max_weight idx =
     bind_err (int32_add idx (int (capacity b))) (\<lambda>k.
     bind_err (py_list_get (priority_sum b) k) (\<lambda>l.
     bind_err (sum_root b) (\<lambda>s.
     bind_err (py_div l s) (\<lambda>prob.
     bind_err (py_pow (fmul prob (fl64 (real (size_buf b)))) (- beta)) (\<lambda>weight.
     bind_err (py_div weight max_weight) (\<lambda>w.
     Inr (to_float32 (Finite w))))))))"

definition sample_result :: "buffer \<Rightarrow> real \<Rightarrow> int list \<Rightarrow> error + samples" where
  "sample_result b beta idxs =
     bind_err (max_weight_of b beta) (\<lambda>max_weight.
     bind_err (map_err (weight_of b beta max_weight) idxs) (\<lambda>ws.
     bind_err (map_err (py_list_get (data_obs b)) idxs) (\<lambda>c1.
     bind_err (map_err (py_list_get (data_action b)) idxs) (\<lambda>c2.
     bind_err (map_err (py_list_get (data_reward b)) idxs) (\<lambda>c3.
     bind_err (map_err (py_list_get (data_next_obs b)) idxs) (\<lambda>c4.
     bind_err (map_err (py_list_get (data_done b)) idxs) (\<lambda>c5.
     Inr \<lparr>weights = ws, indexes = idxs, s_obs = c1, s_action = c2, s_reward = c3,
          s_next_obs = c4, s_done = c5\<rparr>)))))))"

text \<open>
  \<open>sample\<close> returns its dictionary together with the buffer it leaves behind; the result
  is \<open>None\<close> when the descent does not come back.
\<close>

definition sample :: "buffer \<Rightarrow> nat \<Rightarrow> (nat \<Rightarrow> real) \<Rightarrow> real \<Rightarrow> ((error + samples) \<times> buffer) option" where
  "sample b batch_size rnd beta =
     (case draw_indexes b rnd [0..<batch_size] of
        None \<Rightarrow> None
      | Some (Inl e) \<Rightarrow> Some (Inl e, b)
      | Some (Inr idxs) \<Rightarrow> Some (sample_result b beta idxs, b))"

subsection \<open>Sequences of calls\<close>

text \<open>
  A sequence of calls stops at the first one that raises; a call that would not come
  back is the error \<open>NoReturn\<close>.
\<close>

datatype call =
  Push transition
| Update "nat list" "real list"
| Sample nat "nat \<Rightarrow> real" real

fun step :: "buffer \<Rightarrow> call \<Rightarrow> error + buffer" where
  "step b (Push t) = bind_err (push b t) (\<lambda>(r, b'). Inr b')"
| "step b (Update idxs ps) = update_priorities b idxs ps"
| "step b (Sample n rnd beta) =
     (case sample b n rnd beta of
        None \<Rightarrow> Inl NoReturn
      | Some (Inl e, b') \<Rightarrow> Inl e
      | Some (Inr s, b') \<Rightarrow> Inr b')"

fun run :: "buffer \<Rightarrow> call list \<Rightarrow> error + buffer" where
  "run b [] = Inr b"
| "run b (c # cs) = bind_err (step b c) (\<lambda>b'. run b' cs)"

section \<open>Properties\<close>

subsection \<open>Predicates\<close>

text \<open>Every internal node of a tree is the combination of its two children.\<close>

definition tree_inv :: "('a \<Rightarrow> 'a \<Rightarrow> 'a) \<Rightarrow> nat \<Rightarrow> 'a list \<Rightarrow> bool" where
  "tree_inv f cap xs = (\<forall>n\<in>{1..<cap}. xs ! n = f (xs ! (2 * n)) (xs ! (2 * n + 1)))"

definition tree_invariant :: "buffer \<Rightarrow> bool" where
  "tree_invariant b =
     (tree_inv fadd (capacity b) (priority_sum b) \<and> tree_inv xmin (capacity b) (priority_min b))"

text \<open>
  The shape \<open>__init__\<close> gives a buffer and every operation keeps: a positive capacity,
  trees of twice that length, columns of that length, the cursor inside the ring and a
  maximal priority that is at least its first value 1.
\<close>

definition shape_ok :: "buffer \<Rightarrow> bool" where
  "shape_ok b =
     (0 < capacity b \<and>
      length (priority_sum b) = 2 * capacity b \<and>
      length (priority_min b) = 2 * capacity b \<and>
      length (data_obs b) = capacity b \<and>
      length (data_action b) = capacity b \<and>
      length (data_reward b) = capacity b \<and>
      length (data_next_obs b) = capacity b \<and>
      length (data_done b) = capacity b \<and>
      next_idx b < capacity b \<and>
      size_buf b \<le> capacity b \<and>
      1 \<le> max_priority b)"

text \<open>
  The calls a claim speaks of: \<open>update_priorities\<close> with slots inside the ring and
  priorities that are not negative.
\<close>

fun valid_call :: "nat \<Rightarrow> call \<Rightarrow> bool" where
  "valid_call cap (Push t) = True"
| "valid_call cap (Update idxs ps) = list_all (\<lambda>(i, p). i < cap \<and> 0 \<le> p) (zip idxs ps)"
| "valid_call cap (Sample n rnd beta) = True"

fun is_sample :: "call \<Rightarrow> bool" where
  "is_sample (Sample n rnd beta) = True"
| "is_sample c = False"

text \<open>The transition a ring slot holds, read across the five columns.\<close>

definition slot :: "buffer \<Rightarrow> nat \<Rightarrow> transition" where
  "slot b j =
     \<lparr>obs = data_obs b ! j, action = data_action b ! j, reward = data_reward b ! j,
      next_obs = data_next_obs b ! j, done_flag = data_done b ! j\<rparr>"

text \<open>
  The transition as columns of observation width \<open>d\<close> keep it: each of the five values
  after the conversion of its column, or the error of the first conversion that raises.
\<close>

definition stored :: "nat \<Rightarrow> transition \<Rightarrow> error + transition" where
  "stored d t =
     bind_err (to_row d (obs t)) (\<lambda>c1.
     bind_err (to_int32 (action t)) (\<lambda>c2.
     bind_err (to_row d (next_obs t)) (\<lambda>c4.
     Inr \<lparr>obs = c1, action = c2, reward = to_float32 (reward t), next_obs = c4,
          done_flag = done_flag t\<rparr>)))"

text \<open>A call whose transition the columns of observation width \<open>d\<close> take.\<close>

fun call_fits :: "nat \<Rightarrow> call \<Rightarrow> bool" where
  "call_fits d (Push t) = (case stored d t of Inl e \<Rightarrow> False | Inr t' \<Rightarrow> True)"
| "call_fits d c = True"


text \<open>
  The leaf of a slot in the sum tree, and the cumulative sum of the leaves of the slots
  \<open>[0, i)\<close>.
\<close>

definition leaf :: "buffer \<Rightarrow> nat \<Rightarrow> real" where
  "leaf b i = priority_sum b ! (i + capacity b)"

definition cumulative :: "buffer \<Rightarrow> nat \<Rightarrow> real" where
  "cumulative b i = sum_list (map (leaf b) [0..<i])"

text \<open>
  A non-negative multiple of \<open>2 ^ j\<close>. Sums and differences of such numbers are again
  multiples of \<open>2 ^ j\<close>, and those below \<open>2 ^ (53 + j)\<close> are doubles when \<open>j \<ge> -1074\<close>: on
  them the floating-point operations do not round.
\<close>

definition grid :: "int \<Rightarrow> real \<Rightarrow> bool" where
  "grid j x = (0 \<le> x \<and> x / 2 powi j = of_int \<lfloor>x / 2 powi j\<rfloor>)"

text \<open>A buffer of capacity 3, as three pushes and one update leave it.\<close>

definition buf3 :: buffer where
  "buf3 = \<lparr>capacity = 3, alpha = 1, state_dim = 1,
      priority_sum = [0, 6, 5, 1, 2, 3],
      priority_min = [PInf, Fin 1, Fin 2, Fin 1, Fin 2, Fin 3],
      max_priority = 3,
      data_obs = [[1], [1], [1]],
      data_action = [1, 1, 1],
      data_reward = [Finite 1, Finite 1, Finite 1],
      data_next_obs = [[2], [2], [2]],
      data_done = [False, False, False],
      next_idx = 0, size_buf = 3\<rparr>"



subsection \<open>The states of the scenario with capacity 4\<close>

definition tr0 :: transition where
  "tr0 = \<lparr>obs = [1], action = 1, reward = Finite 1, next_obs = [2], done_flag = False\<rparr>"

definition tr5 :: transition where
  "tr5 = \<lparr>obs = [5], action = 3, reward = Finite 7, next_obs = [6], done_flag = True\<rparr>"

definition buf4 :: buffer where
  "buf4 = \<lparr>capacity = 4, alpha = 1, state_dim = 1,
      priority_sum = [0, 4, 2, 2, 1, 1, 1, 1],
      priority_min = [PInf, Fin 1, Fin 1, Fin 1, Fin 1, Fin 1, Fin 1, Fin 1],
      max_priority = 1,
      data_obs = [[1], [1], [1], [1]],
      data_action = [1, 1, 1, 1],
      data_reward = [Finite 1, Finite 1, Finite 1, Finite 1],
      data_next_obs = [[2], [2], [2], [2]],
      data_done = [False, False, False, False],
      next_idx = 0, size_buf = 4\<rparr>"

definition buf5 :: buffer where
  "buf5 = buf4\<lparr>priority_sum := [0, 10, 3, 7, 1, 2, 3, 4],
      priority_min := [PInf, Fin 1, Fin 1, Fin 3, Fin 1, Fin 2, Fin 3, Fin 4],
      max_priority := 4\<rparr>"

definition buf6 :: buffer where
  "buf6 = buf5\<lparr>priority_sum := [0, 13, 6, 7, 4, 2, 3, 4],
      priority_min := [PInf, Fin 2, Fin 2, Fin 3, Fin 4, Fin 2, Fin 3, Fin 4],
      data_obs := [[5], [1], [1], [1]],
      data_action := [3, 1, 1, 1],
      data_reward := [Finite 7, Finite 1, Finite 1, Finite 1],
      data_next_obs := [[6], [2], [2], [2]],
      data_done := [True, False, False, False],
      next_idx := 1\<rparr>"

text \<open>
  A transition whose reward is 0.1, the same as the columns keep it, and the buffer of
  capacity 1 after pushing first \<open>tr0\<close> and then that one.
\<close>

definition tr_tenth :: transition where
  "tr_tenth = \<lparr>obs = [7], action = 1, reward = Finite (1 / 10), next_obs = [8], done_flag = True\<rparr>"

definition tr_tenth32 :: transition where
  "tr_tenth32 = \<lparr>obs = [7], action = 1, reward = Finite (13421773 / 134217728), next_obs = [8],
      done_flag = True\<rparr>"


definition buf_tenth :: buffer where
  "buf_tenth = \<lparr>capacity = 1, alpha = 1, state_dim = 1,
      priority_sum = [0, 1],
      priority_min = [PInf, Fin 1],
      max_priority = 1,
      data_obs = [[7]],
      data_action = [1],
      data_reward = [Finite (13421773 / 134217728)],
      data_next_obs = [[8]],
      data_done = [True],
      next_idx = 0, size_buf = 1\<rparr>"

text \<open>
  A buffer of capacity 4 whose leaves are the doubles nearest to 0.1, 0.2, 0.1 and 0.1:
  node 2 holds their rounded sum 0.30000000000000004, the root 0.5.
\<close>

definition buf_round :: buffer where
  "buf_round = \<lparr>capacity = 4, alpha = 1, state_dim = 1,
      priority_sum = [0, 1 / 2, 1351079888211149 / 4503599627370496,
        3602879701896397 / 18014398509481984,
        3602879701896397 / 36028797018963968, 3602879701896397 / 18014398509481984,
        3602879701896397 / 36028797018963968, 3602879701896397 / 36028797018963968],
      priority_min = [PInf, Fin (3602879701896397 / 36028797018963968),
        Fin (3602879701896397 / 36028797018963968), Fin (3602879701896397 / 36028797018963968),
        Fin (3602879701896397 / 36028797018963968), Fin (3602879701896397 / 18014398509481984),
        Fin (3602879701896397 / 36028797018963968), Fin (3602879701896397 / 36028797018963968)],
      max_priority = 1,
      data_obs = [[1], [1], [1], [1]],
      data_action = [1, 1, 1, 1],
      data_reward = [Finite 1, Finite 1, Finite 1, Finite 1],
      data_next_obs = [[2], [2], [2], [2]],
      data_done = [False, False, False, False],
      next_idx = 0, size_buf = 4\<rparr>"





section \<open>Basic facts\<close>

lemma bind_err_Inl [simp]: "bind_err (Inl e) f = Inl e"
  by (simp add: bind_err_def)

lemma bind_err_Inr [simp]: "bind_err (Inr x) f = f x"
  by (simp add: bind_err_def)

lemma bind_err_eq_Inr: "bind_err m f = Inr y \<longleftrightarrow> (\<exists>x. m = Inr x \<and> f x = Inr y)"
  by (cases m) simp_all

lemma list_get_Inr: "list_get xs i = Inr v \<longleftrightarrow> i < length xs \<and> v = xs ! i"
  by (auto simp: list_get_def)

lemma list_set_Inr: "list_set xs i v = Inr ys \<longleftrightarrow> i < length xs \<and> ys = xs[i := v]"
  by (auto simp: list_set_def)

lemma round_half_even_int [simp]: "round_half_even (of_int m) = m"
  by (simp add: round_half_even_def)

lemma round_half_even_zero [simp]: "round_half_even 0 = 0"
  by (simp add: round_half_even_def)

lemma floor_log2_eq:
  assumes "2 powi e \<le> x" and "x < 2 powi (e + 1)"
  shows "\<lfloor>log 2 x\<rfloor> = e"
proof -
  have p: "0 < x" using assms(1) by (smt (verit) zero_less_power_int)
  have "(2::real) powr (of_int e) \<le> x"
    using assms(1) by (simp add: powr_real_of_int')
  moreover have "x < (2::real) powr (of_int (e + 1))"
    using assms(2) powr_real_of_int'[of 2 "e + 1"] by simp
  ultimately show ?thesis using p
    by (simp add: floor_log_eq_powr_iff)
qed

lemma fl_round_eval:
  assumes "2 powi e \<le> \<bar>x\<bar>" and "\<bar>x\<bar> < 2 powi (e + 1)" and "emin \<le> e"
  shows "fl_round prec emin x =
           of_int (round_half_even (x / 2 powi (e - int prec + 1))) * 2 powi (e - int prec + 1)"
proof -
  from assms(1) have "x \<noteq> 0" by (smt (verit) zero_less_power_int)
  with floor_log2_eq[OF assms(1,2)] assms(3) show ?thesis
    by (simp add: fl_round_def Let_def max_def)
qed


lemma floor_log2_bounds:
  assumes "0 < x"
  shows "2 powi \<lfloor>log 2 x\<rfloor> \<le> x"
proof -
  from floor_log_eq_powr_iff[of x 2 "\<lfloor>log 2 x\<rfloor>"] assms
  have "2 powr (of_int \<lfloor>log 2 x\<rfloor>) \<le> x" by simp
  then show ?thesis by (simp add: powr_real_of_int')
qed

lemma fl_round_exact:
  assumes "x = of_int m * 2 powi j" and "\<bar>m\<bar> < 2 ^ prec" and "emin - int prec + 1 \<le> j"
  shows "fl_round prec emin x = x"
proof (cases "x = 0")
  case True
  then show ?thesis by (simp add: fl_round_def)
next
  case False
  define k where "k = max \<lfloor>log 2 \<bar>x\<bar>\<rfloor> emin"
  have ax: "\<bar>x\<bar> = of_int \<bar>m\<bar> * 2 powi j"
    by (simp add: assms(1) abs_mult)
  have "\<bar>x\<bar> < 2 ^ prec * 2 powi j"
  proof -
    from assms(2) have "(of_int \<bar>m\<bar> :: real) < of_int (2 ^ prec)" by (simp only: of_int_less_iff)
    then have "(of_int \<bar>m\<bar> :: real) < 2 ^ prec" by simp
    then show ?thesis unfolding ax by (simp add: mult_strict_right_mono)
  qed
  also have "\<dots> = 2 powi (int prec + j)"
    by (simp add: power_int_add)
  finally have up: "\<bar>x\<bar> < 2 powi (int prec + j)" .
  have "\<lfloor>log 2 \<bar>x\<bar>\<rfloor> < int prec + j"
  proof (rule ccontr)
    assume "\<not> \<lfloor>log 2 \<bar>x\<bar>\<rfloor> < int prec + j"
    then have "(2::real) powi (int prec + j) \<le> 2 powi \<lfloor>log 2 \<bar>x\<bar>\<rfloor>"
      by (intro power_int_increasing) simp_all
    also have "\<dots> \<le> \<bar>x\<bar>" using False by (intro floor_log2_bounds) simp
    finally show False using up by simp
  qed
  with assms(3) have kj: "k - int prec + 1 \<le> j" by (simp add: k_def)
  define d where "d = nat (j - (k - int prec + 1))"
  from kj have j: "j = (k - int prec + 1) + int d" by (simp add: d_def)
  have pj: "(2::real) powi j = 2 ^ d * 2 powi (k - int prec + 1)"
    by (subst j) (simp add: power_int_add)
  have "x / 2 powi (k - int prec + 1) = of_int (m * 2 ^ d)"
    unfolding assms(1) pj by simp
  then have "of_int (round_half_even (x / 2 powi (k - int prec + 1))) * 2 powi (k - int prec + 1)
      = of_int (m * 2 ^ d) * 2 powi (k - int prec + 1)"
    by (simp only: round_half_even_int)
  also have "\<dots> = x"
    unfolding assms(1) pj by simp
  finally show ?thesis using False by (simp add: fl_round_def Let_def k_def)
qed

lemma fl_round_int:
  assumes "\<bar>m\<bar> < 2 ^ prec" and "emin - int prec + 1 \<le> 0"
  shows "fl_round prec emin (of_int m) = of_int m"
  using fl_round_exact[of "of_int m" m 0 prec emin] assms by simp





lemma round_half_even_power [simp]: "round_half_even (2 ^ n) = 2 ^ n"
  using round_half_even_int[of "2 ^ n"] by simp







lemma to_float32_int:
  assumes "\<bar>m\<bar> < 2 ^ 24"
  shows "to_float32 (Finite (of_int m)) = Finite (of_int m)"
proof -
  from assms have "(of_int \<bar>m\<bar> :: real) < of_int (2 ^ 24)" by (simp only: of_int_less_iff)
  then have "\<bar>of_int m :: real\<bar> < 2 ^ 24" by simp
  then have "\<not> (2 ^ 128 \<le> (of_int m :: real))" "\<not> ((of_int m :: real) \<le> - (2 ^ 128))"
    by (simp_all add: abs_less_iff)
  with fl_round_int[of m 24 "- 126"] assms show ?thesis by simp
qed

declare to_float32.simps(1) [simp del]

lemma fl64_int: "\<bar>m\<bar> < 2 ^ 53 \<Longrightarrow> fl64 (of_int m) = of_int m"
  using fl_round_int[of m 53 "- 1022"] by (simp add: fl64_def)

lemma fl64_numeral [simp]:
  "fl64 0 = 0" "fl64 1 = 1"
  "numeral k < (2 ^ 53 :: int) \<Longrightarrow> fl64 (numeral k) = numeral k"
  using fl64_int[of 0] fl64_int[of 1] fl64_int[of "numeral k"] by simp_all

lemma fl64_eval:
  assumes "2 powi e \<le> \<bar>x\<bar>" and "\<bar>x\<bar> < 2 powi (e + 1)" and "- 1022 \<le> e"
  shows "fl64 x = of_int (round_half_even (x / 2 powi (e - 52))) * 2 powi (e - 52)"
  using fl_round_eval[OF assms(1,2), of "- 1022" 53] assms(3) by (simp add: fl64_def)

lemma to_float32_numeral [simp]:
  "to_float32 (Finite 0) = Finite 0" "to_float32 (Finite 1) = Finite 1"
  "numeral k < (2 ^ 24 :: int) \<Longrightarrow> to_float32 (Finite (numeral k)) = Finite (numeral k)"
  using to_float32_int[of 0] to_float32_int[of 1] to_float32_int[of "numeral k"] by simp_all

lemma float32_tenth: "to_float32 (Finite (1 / 10)) = Finite (13421773 / 134217728)"
proof -
  have "fl_round 24 (- 126) (1 / 10) =
          of_int (round_half_even ((1 / 10) / 2 powi (- 4 - int 24 + 1))) * 2 powi (- 4 - int 24 + 1)"
    by (rule fl_round_eval) (simp_all add: power_int_minus)
  also have "\<dots> = 13421773 / 134217728"
    by (simp add: round_half_even_def power_int_minus)
  finally show ?thesis by (simp add: to_float32.simps(1))
qed

lemma tr0_fits [simp]: "stored (Suc 0) tr0 = Inr tr0"
  by (simp add: stored_def to_row_def to_int32_def tr0_def)

lemma tr5_fits [simp]: "stored (Suc 0) tr5 = Inr tr5"
  by (simp add: stored_def to_row_def to_int32_def tr5_def)

lemma tr_tenth_stored [simp]: "stored (Suc 0) tr_tenth = Inr tr_tenth32"
  by (simp add: stored_def to_row_def to_int32_def tr_tenth_def tr_tenth32_def float32_tenth)

lemma loop_stop: "idx < 2 \<Longrightarrow> set_priority_loop f xs idx = Inr xs"
  by (subst set_priority_loop.simps) simp

lemma loop_step:
  "2 \<le> idx \<Longrightarrow> 2 * (idx div 2) + 1 < length xs \<Longrightarrow>
   set_priority_loop f xs idx =
   set_priority_loop f (xs[idx div 2 := f (xs ! (2 * (idx div 2))) (xs ! (2 * (idx div 2) + 1))])
     (idx div 2)"
  by (subst set_priority_loop.simps) (simp add: list_get_def list_set_def)

text \<open>On a list of even length every round of the loop stays inside the list.\<close>

lemma loop_total:
  "idx < length xs \<Longrightarrow> even (length xs) \<Longrightarrow>
   \<exists>ys. set_priority_loop f xs idx = Inr ys \<and> length ys = length xs \<and>
        (\<forall>j. idx div 2 < j \<longrightarrow> ys ! j = xs ! j)"
proof (induction idx arbitrary: xs rule: less_induct)
  case (less idx)
  show ?case
  proof (cases "2 \<le> idx")
    case False
    then show ?thesis by (simp add: loop_stop)
  next
    case True
    let ?i = "idx div 2"
    let ?xs = "xs[?i := f (xs ! (2 * ?i)) (xs ! (2 * ?i + 1))]"
    from less.prems have a: "2 * ?i + 1 < length xs" by presburger
    from True have lt: "?i < idx" by simp
    from less.prems lt have "?i < length ?xs" "even (length ?xs)" by simp_all
    from less.IH[OF lt this] obtain ys where
      ys: "set_priority_loop f ?xs ?i = Inr ys" "length ys = length ?xs"
          "\<forall>j. ?i div 2 < j \<longrightarrow> ys ! j = ?xs ! j"
      by blast
    have "\<forall>j. ?i < j \<longrightarrow> ys ! j = xs ! j"
    proof (intro allI impI)
      fix j assume j: "?i < j"
      then have "?i div 2 < j" by simp
      with ys(3) have "ys ! j = ?xs ! j" by blast
      with j show "ys ! j = xs ! j" by simp
    qed
    with ys True a show ?thesis by (simp add: loop_step)
  qed
qed

lemma loop_tree_inv:
  "idx < length xs \<Longrightarrow> length xs = 2 * cap \<Longrightarrow>
   \<forall>n\<in>{1..<cap}. n \<noteq> idx div 2 \<longrightarrow> xs ! n = f (xs ! (2 * n)) (xs ! (2 * n + 1)) \<Longrightarrow>
   set_priority_loop f xs idx = Inr ys \<Longrightarrow> tree_inv f cap ys"
proof (induction idx arbitrary: xs rule: less_induct)
  case (less idx)
  show ?case
  proof (cases "2 \<le> idx")
    case False
    then have "idx div 2 = 0" by simp
    with less.prems False show ?thesis
      by (auto simp: loop_stop tree_inv_def)
  next
    case True
    let ?i = "idx div 2"
    let ?xs = "xs[?i := f (xs ! (2 * ?i)) (xs ! (2 * ?i + 1))]"
    from less.prems have a: "2 * ?i + 1 < length xs" by presburger
    from True have lt: "?i < idx" and pos: "1 \<le> ?i" by simp_all
    from less.prems True a have r: "set_priority_loop f ?xs ?i = Inr ys"
      by (simp add: loop_step)
    have inv: "\<forall>n\<in>{1..<cap}. n \<noteq> ?i div 2 \<longrightarrow> ?xs ! n = f (?xs ! (2 * n)) (?xs ! (2 * n + 1))"
    proof (intro ballI impI)
      fix n assume n: "n \<in> {1..<cap}" and ne: "n \<noteq> ?i div 2"
      show "?xs ! n = f (?xs ! (2 * n)) (?xs ! (2 * n + 1))"
      proof (cases "n = ?i")
        case True
        with a pos show ?thesis by simp
      next
        case False
        from ne have "2 * n \<noteq> ?i" "2 * n + 1 \<noteq> ?i" by presburger+
        with False less.prems(3) n show ?thesis by simp
      qed
    qed
    from less.prems lt have "?i < length ?xs" "length ?xs = 2 * cap" by simp_all
    from less.IH[OF lt this inv r] show ?thesis .
  qed
qed

lemma find_stop: "cap \<le> idx \<Longrightarrow> find_prefix_loop cap ps idx p rd = Some (Inr (idx - cap, rd))"
  by (subst find_prefix_loop.simps) simp

lemma find_left:
  "idx < cap \<Longrightarrow> 2 * idx < length ps \<Longrightarrow> p < ps ! (2 * idx) \<Longrightarrow>
   find_prefix_loop cap ps idx p rd = find_prefix_loop cap ps (2 * idx) p (rd @ [idx * 2])"
  by (subst find_prefix_loop.simps) (simp add: list_get_def mult.commute)

lemma find_right:
  "idx < cap \<Longrightarrow> 2 * idx < length ps \<Longrightarrow> \<not> p < ps ! (2 * idx) \<Longrightarrow>
   find_prefix_loop cap ps idx p rd =
   find_prefix_loop cap ps (2 * idx + 1) (fsub p (ps ! (2 * idx))) (rd @ [idx * 2])"
  by (subst find_prefix_loop.simps) (simp add: list_get_def mult.commute)

lemma find_total:
  "1 \<le> idx \<Longrightarrow> idx < 2 * cap \<Longrightarrow> length ps = 2 * cap \<Longrightarrow>
   \<exists>i tr. find_prefix_loop cap ps idx p rd = Some (Inr (i, rd @ tr)) \<and> i < cap \<and>
          (\<forall>r\<in>set tr. 2 \<le> r \<and> r < 2 * cap)"
proof (induction "2 * cap - idx" arbitrary: idx p rd rule: less_induct)
  case less
  show ?case
  proof (cases "idx < cap")
    case False
    with less.prems show ?thesis by (simp add: find_stop)
  next
    case True
    with less.prems have in_range: "2 * idx < length ps" by simp
    show ?thesis
    proof (cases "p < ps ! (2 * idx)")
      case left: True
      from less.prems True have m: "2 * cap - 2 * idx < 2 * cap - idx"
        and b: "1 \<le> 2 * idx" "2 * idx < 2 * cap" by simp_all
      from less.hyps[OF m b less.prems(3), of p "rd @ [idx * 2]"] obtain i tr where
        r: "find_prefix_loop cap ps (2 * idx) p (rd @ [idx * 2]) = Some (Inr (i, (rd @ [idx * 2]) @ tr))"
           "i < cap" "\<forall>r\<in>set tr. 2 \<le> r \<and> r < 2 * cap"
        by blast
      let ?tr = "(idx * 2) # tr"
      from r(1) True in_range left
      have "find_prefix_loop cap ps idx p rd = Some (Inr (i, rd @ ?tr))"
        by (simp add: find_left)
      moreover from r(3) less.prems True have "\<forall>r\<in>set ?tr. 2 \<le> r \<and> r < 2 * cap" by simp
      ultimately show ?thesis using r(2) by blast
    next
      case right: False
      let ?p = "fsub p (ps ! (2 * idx))"
      from less.prems True have m: "2 * cap - (2 * idx + 1) < 2 * cap - idx"
        and b: "1 \<le> 2 * idx + 1" "2 * idx + 1 < 2 * cap" by simp_all
      from less.hyps[OF m b less.prems(3), of ?p "rd @ [idx * 2]"] obtain i tr where
        r: "find_prefix_loop cap ps (2 * idx + 1) ?p (rd @ [idx * 2]) = Some (Inr (i, (rd @ [idx * 2]) @ tr))"
           "i < cap" "\<forall>r\<in>set tr. 2 \<le> r \<and> r < 2 * cap"
        by blast
      let ?tr = "(idx * 2) # tr"
      from r(1) True in_range right
      have "find_prefix_loop cap ps idx p rd = Some (Inr (i, rd @ ?tr))"
        by (simp add: find_right)
      moreover from r(3) less.prems True have "\<forall>r\<in>set ?tr. 2 \<le> r \<and> r < 2 * cap" by simp
      ultimately show ?thesis using r(2) by blast
    qed
  qed
qed

lemma set_tree_total:
  assumes "idx < cap" and "length xs = 2 * cap"
  shows "\<exists>ys. set_tree f cap xs idx v = Inr ys \<and> length ys = 2 * cap \<and> ys ! (idx + cap) = v \<and>
           (\<forall>j. cap \<le> j \<and> j \<noteq> idx + cap \<longrightarrow> ys ! j = xs ! j)"
proof -
  let ?xs = "xs[idx + cap := v]"
  from assms have "idx + cap < length ?xs" "even (length ?xs)" by simp_all
  from loop_total[OF this, of f] obtain ys where
    ys: "set_priority_loop f ?xs (idx + cap) = Inr ys" "length ys = length ?xs"
        "\<forall>j. (idx + cap) div 2 < j \<longrightarrow> ys ! j = ?xs ! j"
    by blast
  from assms have half: "(idx + cap) div 2 < cap" by simp
  then have "(idx + cap) div 2 < idx + cap" by simp
  with ys(3) assms have "ys ! (idx + cap) = v" by simp
  moreover have "\<forall>j. cap \<le> j \<and> j \<noteq> idx + cap \<longrightarrow> ys ! j = xs ! j"
    using ys(3) half by auto
  moreover from assms ys(1) have "set_tree f cap xs idx v = Inr ys"
    by (simp add: set_tree_def list_set_def)
  ultimately show ?thesis using ys(2) assms by simp
qed

lemma set_tree_inv:
  assumes "idx < cap" and "length xs = 2 * cap" and "tree_inv f cap xs"
    and "set_tree f cap xs idx v = Inr ys"
  shows "tree_inv f cap ys"
proof -
  let ?xs = "xs[idx + cap := v]"
  from assms have r: "set_priority_loop f ?xs (idx + cap) = Inr ys"
    by (simp add: set_tree_def list_set_def)
  have "\<forall>n\<in>{1..<cap}. n \<noteq> (idx + cap) div 2 \<longrightarrow> ?xs ! n = f (?xs ! (2 * n)) (?xs ! (2 * n + 1))"
  proof (intro ballI impI)
    fix n assume n: "n \<in> {1..<cap}" and ne: "n \<noteq> (idx + cap) div 2"
    from ne have "2 * n \<noteq> idx + cap" "2 * n + 1 \<noteq> idx + cap" by presburger+
    moreover from n have "n \<noteq> idx + cap" by simp
    ultimately show "?xs ! n = f (?xs ! (2 * n)) (?xs ! (2 * n + 1))"
      using assms(3) n by (simp add: tree_inv_def)
  qed
  moreover from assms have "idx + cap < length ?xs" "length ?xs = 2 * cap" by simp_all
  ultimately show ?thesis using r by (blast intro: loop_tree_inv)
qed

lemma py_pow_pos: "0 < x \<Longrightarrow> py_pow x y = Inr (fl64 (x powr y))"
  by (simp add: py_pow_def)

lemma stored_Inr:
  "stored d t = Inr t' \<longleftrightarrow>
     (\<exists>c1 c2 c4. to_row d (obs t) = Inr c1 \<and> to_int32 (action t) = Inr c2 \<and>
        to_row d (next_obs t) = Inr c4 \<and>
        t' = \<lparr>obs = c1, action = c2, reward = to_float32 (reward t), next_obs = c4,
              done_flag = done_flag t\<rparr>)"
  by (auto simp: stored_def bind_err_eq_Inr)

lemma push_result:
  assumes "shape_ok b" and "stored (state_dim b) t = Inr t'"
  shows "\<exists>tm ts.
     set_tree xmin (capacity b) (priority_min b) (next_idx b)
        (Fin (fl64 (max_priority b powr alpha b))) = Inr tm \<and>
     set_tree fadd (capacity b) (priority_sum b) (next_idx b)
        (fl64 (max_priority b powr alpha b)) = Inr ts \<and>
     push b t = Inr (PyNone,
       b\<lparr>data_obs := (data_obs b)[next_idx b := obs t'],
         data_action := (data_action b)[next_idx b := action t'],
         data_reward := (data_reward b)[next_idx b := reward t'],
         data_next_obs := (data_next_obs b)[next_idx b := next_obs t'],
         data_done := (data_done b)[next_idx b := done_flag t'],
         next_idx := (next_idx b + 1) mod capacity b,
         size_buf := min (capacity b) (size_buf b + 1),
         priority_min := tm, priority_sum := ts\<rparr>)"
proof -
  from assms(1) have i: "next_idx b < capacity b"
    and lm: "length (priority_min b) = 2 * capacity b"
    and ls: "length (priority_sum b) = 2 * capacity b"
    by (simp_all add: shape_ok_def)
  from set_tree_total[OF i lm] obtain tm where
    tm: "set_tree xmin (capacity b) (priority_min b) (next_idx b)
           (Fin (fl64 (max_priority b powr alpha b))) = Inr tm"
    by blast
  from set_tree_total[OF i ls] obtain ts where
    ts: "set_tree fadd (capacity b) (priority_sum b) (next_idx b)
           (fl64 (max_priority b powr alpha b)) = Inr ts"
    by blast
  from assms(1) have pw: "py_pow (max_priority b) (alpha b) = Inr (fl64 (max_priority b powr alpha b))"
    by (simp add: py_pow_pos shape_ok_def)
  from assms(2) obtain c1 c2 c4 where
    c: "to_row (state_dim b) (obs t) = Inr c1" "to_int32 (action t) = Inr c2"
       "to_row (state_dim b) (next_obs t) = Inr c4"
    and t': "t' = \<lparr>obs = c1, action = c2, reward = to_float32 (reward t), next_obs = c4,
                   done_flag = done_flag t\<rparr>"
    by (auto simp: stored_Inr)
  from assms(1) tm ts pw c have "push b t = Inr (PyNone,
       b\<lparr>data_obs := (data_obs b)[next_idx b := c1],
         data_action := (data_action b)[next_idx b := c2],
         data_reward := (data_reward b)[next_idx b := to_float32 (reward t)],
         data_next_obs := (data_next_obs b)[next_idx b := c4],
         data_done := (data_done b)[next_idx b := done_flag t],
         next_idx := (next_idx b + 1) mod capacity b,
         size_buf := min (capacity b) (size_buf b + 1),
         priority_min := tm, priority_sum := ts\<rparr>)"
    by (simp add: push_def shape_ok_def store_def set_priority_min_def set_priority_sum_def Let_def)
  with tm ts t' show ?thesis by simp
qed

lemma push_error:
  assumes "shape_ok b" and "stored (state_dim b) t = Inl e"
  shows "push b t = Inl e"
proof -
  from assms(1) have l: "next_idx b < length (data_obs b)" "next_idx b < length (data_action b)"
    "next_idx b < length (data_reward b)" "next_idx b < length (data_next_obs b)"
    by (simp_all add: shape_ok_def)
  show ?thesis
  proof (cases "to_row (state_dim b) (obs t)")
    case (Inl e1)
    with assms(2) l show ?thesis by (simp add: stored_def push_def store_def Let_def)
  next
    case c1: (Inr c1)
    show ?thesis
    proof (cases "to_int32 (action t)")
      case (Inl e2)
      with assms(2) l c1 show ?thesis by (simp add: stored_def push_def store_def Let_def)
    next
      case c2: (Inr c2)
      show ?thesis
      proof (cases "to_row (state_dim b) (next_obs t)")
        case (Inl e4)
        with assms(2) l c1 c2 show ?thesis by (simp add: stored_def push_def store_def Let_def)
      next
        case (Inr c4)
        with assms(2) c1 c2 show ?thesis by (simp add: stored_def)
      qed
    qed
  qed
qed

lemma push_stored:
  assumes "shape_ok b" and "push b t = Inr (r, b')"
  shows "\<exists>t'. stored (state_dim b) t = Inr t'"
proof (cases "stored (state_dim b) t")
  case (Inl e)
  from push_error[OF assms(1) this] assms(2) show ?thesis by simp
next
  case (Inr t')
  then show ?thesis by blast
qed

lemma set_tree_props:
  assumes "idx < cap" and "length xs = 2 * cap" and "set_tree f cap xs idx v = Inr ys"
  shows "length ys = 2 * cap" and "ys ! (idx + cap) = v"
    and "\<And>j. cap \<le> j \<Longrightarrow> j \<noteq> idx + cap \<Longrightarrow> ys ! j = xs ! j"
  using set_tree_total[OF assms(1,2), of f v] assms(3) by auto

text \<open>The two tree updates that end \<open>push\<close> and every round of \<open>update_priorities\<close>.\<close>

lemma set_both:
  assumes "idx < capacity b" and "length (priority_min b) = 2 * capacity b"
    and "length (priority_sum b) = 2 * capacity b"
  shows "\<exists>tm ts.
     set_tree xmin (capacity b) (priority_min b) idx (Fin v) = Inr tm \<and>
     set_tree fadd (capacity b) (priority_sum b) idx v = Inr ts \<and>
     (\<forall>k. bind_err (set_priority_min b idx v) (\<lambda>b2. bind_err (set_priority_sum b2 idx v) k)
          = k (b\<lparr>priority_min := tm, priority_sum := ts\<rparr>))"
proof -
  from set_tree_total[OF assms(1,2)] obtain tm where
    tm: "set_tree xmin (capacity b) (priority_min b) idx (Fin v) = Inr tm"
    by blast
  from set_tree_total[OF assms(1,3)] obtain ts where
    ts: "set_tree fadd (capacity b) (priority_sum b) idx v = Inr ts"
    by blast
  from tm ts show ?thesis
    by (simp add: set_priority_min_def set_priority_sum_def)
qed

lemma update_cons:
  assumes "shape_ok b" and "idx < capacity b" and "py_pow p (alpha b) = Inr v"
  shows "\<exists>tm ts.
     set_tree xmin (capacity b) (priority_min b) idx (Fin v) = Inr tm \<and>
     set_tree fadd (capacity b) (priority_sum b) idx v = Inr ts \<and>
     update_priorities_loop b ((idx, p) # rest) =
       update_priorities_loop
         (b\<lparr>max_priority := max (max_priority b) p, priority_min := tm, priority_sum := ts\<rparr>) rest"
proof -
  let ?b1 = "b\<lparr>max_priority := max (max_priority b) p\<rparr>"
  from assms have "idx < capacity ?b1" "length (priority_min ?b1) = 2 * capacity ?b1"
    "length (priority_sum ?b1) = 2 * capacity ?b1"
    by (simp_all add: shape_ok_def)
  from set_both[OF this, of v] obtain tm ts where
    t: "set_tree xmin (capacity b) (priority_min b) idx (Fin v) = Inr tm"
       "set_tree fadd (capacity b) (priority_sum b) idx v = Inr ts"
    and k: "\<And>k :: buffer \<Rightarrow> error + buffer. bind_err (set_priority_min ?b1 idx v) (\<lambda>b2. bind_err (set_priority_sum b2 idx v) k)
          = k (?b1\<lparr>priority_min := tm, priority_sum := ts\<rparr>)"
    by auto
  from assms(3) k[of "\<lambda>b3. update_priorities_loop b3 rest"]
  have "update_priorities_loop b ((idx, p) # rest) =
       update_priorities_loop
         (b\<lparr>max_priority := max (max_priority b) p, priority_min := tm, priority_sum := ts\<rparr>) rest"
    by (simp add: Let_def)
  with t show ?thesis by blast
qed


lemma py_pow_total:
  "0 \<le> x \<Longrightarrow> 0 \<le> y \<Longrightarrow> \<exists>v. py_pow x y = Inr v"
  by (auto simp: py_pow_def)

lemma shape_ok_trees:
  assumes "shape_ok b" and "idx < capacity b"
    and "set_tree xmin (capacity b) (priority_min b) idx v = Inr tm"
    and "set_tree fadd (capacity b) (priority_sum b) idx w = Inr ts"
  shows "length tm = 2 * capacity b" and "length ts = 2 * capacity b"
proof -
  from assms(1) have lm: "length (priority_min b) = 2 * capacity b"
    and ls: "length (priority_sum b) = 2 * capacity b"
    by (simp_all add: shape_ok_def)
  from set_tree_props(1)[OF assms(2) lm assms(3)] show "length tm = 2 * capacity b" .
  from set_tree_props(1)[OF assms(2) ls assms(4)] show "length ts = 2 * capacity b" .
qed

lemma tree_invariant_trees:
  assumes "shape_ok b" and "tree_invariant b" and "idx < capacity b"
    and "set_tree xmin (capacity b) (priority_min b) idx v = Inr tm"
    and "set_tree fadd (capacity b) (priority_sum b) idx w = Inr ts"
  shows "tree_inv xmin (capacity b) tm" and "tree_inv fadd (capacity b) ts"
proof -
  from assms(1) have lm: "length (priority_min b) = 2 * capacity b"
    and ls: "length (priority_sum b) = 2 * capacity b"
    by (simp_all add: shape_ok_def)
  from assms(2) have im: "tree_inv xmin (capacity b) (priority_min b)"
    and isum: "tree_inv fadd (capacity b) (priority_sum b)"
    by (simp_all add: tree_invariant_def)
  from set_tree_inv[OF assms(3) lm im assms(4)] show "tree_inv xmin (capacity b) tm" .
  from set_tree_inv[OF assms(3) ls isum assms(5)] show "tree_inv fadd (capacity b) ts" .
qed

lemma push_preserves:
  assumes "shape_ok b" and "push b t = Inr (r, b')"
  shows "shape_ok b'" and "tree_invariant b \<Longrightarrow> tree_invariant b'"
    and "capacity b' = capacity b" and "alpha b' = alpha b"
    and "max_priority b' = max_priority b"
proof -
  from assms(1) have i: "next_idx b < capacity b" by (simp add: shape_ok_def)
  from push_stored[OF assms] obtain t' where t': "stored (state_dim b) t = Inr t'" by blast
  from push_result[OF assms(1) t'] assms(2) obtain tm ts where
    tm: "set_tree xmin (capacity b) (priority_min b) (next_idx b)
           (Fin (fl64 (max_priority b powr alpha b))) = Inr tm"
    and ts: "set_tree fadd (capacity b) (priority_sum b) (next_idx b)
           (fl64 (max_priority b powr alpha b)) = Inr ts"
    and b': "b' = b\<lparr>data_obs := (data_obs b)[next_idx b := obs t'],
         data_action := (data_action b)[next_idx b := action t'],
         data_reward := (data_reward b)[next_idx b := reward t'],
         data_next_obs := (data_next_obs b)[next_idx b := next_obs t'],
         data_done := (data_done b)[next_idx b := done_flag t'],
         next_idx := (next_idx b + 1) mod capacity b,
         size_buf := min (capacity b) (size_buf b + 1),
         priority_min := tm, priority_sum := ts\<rparr>"
    by auto
  from shape_ok_trees[OF assms(1) i tm ts] assms(1) b' show "shape_ok b'"
    by (simp add: shape_ok_def)
  from b' show "capacity b' = capacity b" "alpha b' = alpha b" "max_priority b' = max_priority b"
    by simp_all
  assume "tree_invariant b"
  from tree_invariant_trees[OF assms(1) this i tm ts] b' show "tree_invariant b'"
    by (simp add: tree_invariant_def)
qed

lemma update_loop_preserves:
  assumes "shape_ok b" and "list_all (\<lambda>(i, p). i < capacity b \<and> 0 \<le> p) xs"
    and "update_priorities_loop b xs = Inr b'"
  shows "shape_ok b' \<and> (tree_invariant b \<longrightarrow> tree_invariant b') \<and> capacity b' = capacity b \<and>
         alpha b' = alpha b"
  using assms
proof (induction xs arbitrary: b)
  case Nil
  then show ?case by simp
next
  case (Cons x xs)
  obtain idx p where x: "x = (idx, p)" by (cases x)
  with Cons.prems have i: "idx < capacity b" and p: "0 \<le> p" by simp_all
  from Cons.prems(3) x obtain v where v: "py_pow p (alpha b) = Inr v"
    by (cases "py_pow p (alpha b)") (simp_all add: Let_def)
  from update_cons[OF Cons.prems(1) i v, of xs] obtain tm ts where
    tm: "set_tree xmin (capacity b) (priority_min b) idx (Fin v) = Inr tm"
    and ts: "set_tree fadd (capacity b) (priority_sum b) idx v = Inr ts"
    and step: "update_priorities_loop b ((idx, p) # xs) =
       update_priorities_loop
         (b\<lparr>max_priority := max (max_priority b) p, priority_min := tm, priority_sum := ts\<rparr>) xs"
    by blast
  let ?b = "b\<lparr>max_priority := max (max_priority b) p, priority_min := tm, priority_sum := ts\<rparr>"
  from shape_ok_trees[OF Cons.prems(1) i tm ts] Cons.prems(1) have s: "shape_ok ?b"
    by (auto simp: shape_ok_def)
  from Cons.prems(2) have l: "list_all (\<lambda>(i, p). i < capacity ?b \<and> 0 \<le> p) xs" by simp
  from Cons.prems(3) step x have r: "update_priorities_loop ?b xs = Inr b'" by simp
  from Cons.IH[OF s l r] have ih: "shape_ok b'" "tree_invariant ?b \<longrightarrow> tree_invariant b'"
    "capacity b' = capacity b" "alpha b' = alpha b" by simp_all
  have "tree_invariant b \<longrightarrow> tree_invariant ?b"
    using tree_invariant_trees[OF Cons.prems(1) _ i tm ts] by (simp add: tree_invariant_def)
  with ih show ?case by blast
qed

lemma update_loop_total:
  assumes "shape_ok b" and "list_all (\<lambda>(i, p). i < capacity b \<and> 0 \<le> p) xs" and "0 \<le> alpha b"
  shows "\<exists>b'. update_priorities_loop b xs = Inr b'"
  using assms
proof (induction xs arbitrary: b)
  case Nil
  then show ?case by simp
next
  case (Cons x xs)
  obtain idx p where x: "x = (idx, p)" by (cases x)
  with Cons.prems have i: "idx < capacity b" and p: "0 \<le> p" by simp_all
  from py_pow_total[OF p Cons.prems(3)] obtain v where v: "py_pow p (alpha b) = Inr v"
    by blast
  from update_cons[OF Cons.prems(1) i v, of xs] obtain tm ts where
    tm: "set_tree xmin (capacity b) (priority_min b) idx (Fin v) = Inr tm"
    and ts: "set_tree fadd (capacity b) (priority_sum b) idx v = Inr ts"
    and step: "update_priorities_loop b ((idx, p) # xs) =
       update_priorities_loop
         (b\<lparr>max_priority := max (max_priority b) p, priority_min := tm, priority_sum := ts\<rparr>) xs"
    by blast
  let ?b = "b\<lparr>max_priority := max (max_priority b) p, priority_min := tm, priority_sum := ts\<rparr>"
  from shape_ok_trees[OF Cons.prems(1) i tm ts] Cons.prems(1) have s: "shape_ok ?b"
    by (auto simp: shape_ok_def)
  from Cons.prems(2) have l: "list_all (\<lambda>(i, p). i < capacity ?b \<and> 0 \<le> p) xs" by simp
  from Cons.prems(3) have "0 \<le> alpha ?b" by simp
  from Cons.IH[OF s l this] step x show ?case by simp
qed

lemma init_buffer_ok:
  assumes "0 < cap"
  shows "shape_ok (init_buffer cap a sd)" and "tree_invariant (init_buffer cap a sd)"
  using assms
  by (simp_all add: shape_ok_def tree_invariant_def tree_inv_def init_buffer_def fadd_def)

lemma sample_same_buffer: "sample b n rnd beta = Some (r, b') \<Longrightarrow> b' = b"
  by (auto simp: sample_def split: option.splits sum.splits)

lemma draw_indexes_total:
  assumes "shape_ok b"
  shows "\<exists>r. draw_indexes b rnd js = Some r"
proof (induction js)
  case Nil
  show ?case by simp
next
  case (Cons j js)
  from assms have c: "0 < capacity b" and l: "length (priority_sum b) = 2 * capacity b"
    by (simp_all add: shape_ok_def)
  then have "1 < 2 * capacity b" by simp
  from find_total[OF order_refl this l]
  have fp: "\<And>p. \<exists>i tr. find_prefix_sum_idx b p = Some (Inr (i, tr))"
    unfolding find_prefix_sum_idx_def by (metis append_Nil)
  have "\<exists>r. draw_index b rnd j = Some r"
  proof (cases "sum_root b")
    case (Inl e)
    then show ?thesis by (simp add: draw_index_def)
  next
    case (Inr s)
    from fp[of "fmul (rnd j) s"] obtain i tr where
      "find_prefix_sum_idx b (fmul (rnd j) s) = Some (Inr (i, tr))" by blast
    with Inr show ?thesis by (simp add: draw_index_def)
  qed
  with Cons show ?case
    by (auto split: sum.splits option.splits)
qed

lemma sample_total: "shape_ok b \<Longrightarrow> \<exists>r. sample b n rnd beta = Some (r, b)"
  using draw_indexes_total[of b rnd "[0..<n]"]
  by (auto simp: sample_def split: sum.splits option.splits)

lemma push_max_priority: "push b t = Inr (r, b') \<Longrightarrow> max_priority b' = max_priority b"
  by (auto simp: push_def bind_err_eq_Inr set_priority_min_def set_priority_sum_def Let_def
      split: if_splits)

lemma update_loop_max_priority:
  "update_priorities_loop b xs = Inr b' \<Longrightarrow> max_priority b \<le> max_priority b'"
proof (induction xs arbitrary: b)
  case Nil
  then show ?case by simp
next
  case (Cons x xs)
  obtain idx p where x: "x = (idx, p)" by (cases x)
  let ?b1 = "b\<lparr>max_priority := max (max_priority b) p\<rparr>"
  from Cons.prems x obtain v b2 b3 where
    "set_priority_min ?b1 idx v = Inr b2" "set_priority_sum b2 idx v = Inr b3"
    "update_priorities_loop b3 xs = Inr b'"
    by (auto simp: bind_err_eq_Inr Let_def)
  moreover from this have "max_priority b3 = max (max_priority b) p"
    by (auto simp: set_priority_min_def set_priority_sum_def bind_err_eq_Inr)
  ultimately show ?case using Cons.IH[of b3] by simp
qed

lemma step_max_priority: "step b c = Inr b' \<Longrightarrow> max_priority b \<le> max_priority b'"
proof (cases c)
  case (Push t)
  assume "step b c = Inr b'"
  with Push show ?thesis
    by (auto simp: bind_err_eq_Inr dest: push_max_priority)
next
  case (Update idxs ps)
  assume "step b c = Inr b'"
  with Update show ?thesis
    by (simp add: update_priorities_def update_loop_max_priority)
next
  case (Sample n rnd beta)
  assume "step b c = Inr b'"
  with Sample show ?thesis
    by (auto split: option.splits sum.splits dest: sample_same_buffer)
qed

lemma run_max_priority: "run b cs = Inr b' \<Longrightarrow> max_priority b \<le> max_priority b'"
proof (induction cs arbitrary: b)
  case Nil
  then show ?case by simp
next
  case (Cons c cs)
  then obtain b1 where "step b c = Inr b1" "run b1 cs = Inr b'"
    by (auto simp: bind_err_eq_Inr)
  with Cons.IH[of b1] step_max_priority[of b c b1] show ?case by simp
qed

lemma push_state_dim: "push b t = Inr (r, b') \<Longrightarrow> state_dim b' = state_dim b"
  by (auto simp: push_def bind_err_eq_Inr set_priority_min_def set_priority_sum_def Let_def
      split: if_splits)

lemma update_loop_state_dim:
  "update_priorities_loop b xs = Inr b' \<Longrightarrow> state_dim b' = state_dim b"
proof (induction xs arbitrary: b)
  case Nil
  then show ?case by simp
next
  case (Cons x xs)
  obtain idx p where x: "x = (idx, p)" by (cases x)
  let ?b1 = "b\<lparr>max_priority := max (max_priority b) p\<rparr>"
  from Cons.prems x obtain v b2 b3 where
    "set_priority_min ?b1 idx v = Inr b2" "set_priority_sum b2 idx v = Inr b3"
    "update_priorities_loop b3 xs = Inr b'"
    by (auto simp: bind_err_eq_Inr Let_def)
  moreover from this have "state_dim b3 = state_dim b"
    by (auto simp: set_priority_min_def set_priority_sum_def bind_err_eq_Inr)
  ultimately show ?case using Cons.IH[of b3] by simp
qed

lemma step_state_dim: "step b c = Inr b' \<Longrightarrow> state_dim b' = state_dim b"
proof (cases c)
  case (Push t)
  assume "step b c = Inr b'"
  with Push show ?thesis by (auto simp: bind_err_eq_Inr dest: push_state_dim)
next
  case (Update idxs ps)
  assume "step b c = Inr b'"
  with Update show ?thesis by (simp add: update_priorities_def update_loop_state_dim)
next
  case (Sample n rnd beta)
  assume "step b c = Inr b'"
  with Sample show ?thesis
    by (auto split: option.splits sum.splits dest: sample_same_buffer)
qed

lemma step_preserves:
  assumes "shape_ok b" and "valid_call (capacity b) c" and "step b c = Inr b'"
  shows "shape_ok b' \<and> (tree_invariant b \<longrightarrow> tree_invariant b') \<and> capacity b' = capacity b \<and>
         alpha b' = alpha b"
proof (cases c)
  case (Push t)
  with assms(3) obtain r where "push b t = Inr (r, b')"
    by (auto simp: bind_err_eq_Inr)
  from push_preserves[OF assms(1) this] show ?thesis by simp
next
  case (Update idxs ps)
  with assms have "list_all (\<lambda>(i, p). i < capacity b \<and> 0 \<le> p) (zip idxs ps)"
    and "update_priorities_loop b (zip idxs ps) = Inr b'"
    by (simp_all add: update_priorities_def)
  from update_loop_preserves[OF assms(1) this] show ?thesis .
next
  case (Sample n rnd beta)
  with assms(3) have "b' = b"
    by (auto split: option.splits sum.splits dest: sample_same_buffer)
  with assms(1) show ?thesis by simp
qed

lemma step_total:
  assumes "shape_ok b" and "valid_call (capacity b) c" and "0 \<le> alpha b" and "\<not> is_sample c"
    and "call_fits (state_dim b) c"
  shows "\<exists>b'. step b c = Inr b'"
proof (cases c)
  case (Push t)
  with assms(5) obtain t' where "stored (state_dim b) t = Inr t'"
    by (auto split: sum.splits)
  from push_result[OF assms(1) this] Push show ?thesis by auto
next
  case (Update idxs ps)
  with assms have "list_all (\<lambda>(i, p). i < capacity b \<and> 0 \<le> p) (zip idxs ps)" by simp
  from update_loop_total[OF assms(1) this assms(3)] Update show ?thesis
    by (simp add: update_priorities_def)
next
  case (Sample n rnd beta)
  with assms(4) show ?thesis by simp
qed

lemma run_preserves:
  assumes "shape_ok b" and "list_all (valid_call (capacity b)) cs" and "run b cs = Inr b'"
  shows "shape_ok b' \<and> (tree_invariant b \<longrightarrow> tree_invariant b') \<and> capacity b' = capacity b \<and>
         alpha b' = alpha b"
  using assms
proof (induction cs arbitrary: b)
  case Nil
  then show ?case by simp
next
  case (Cons c cs)
  from Cons.prems(3) obtain b1 where b1: "step b c = Inr b1" "run b1 cs = Inr b'"
    by (auto simp: bind_err_eq_Inr)
  from Cons.prems(2) have v: "valid_call (capacity b) c" by simp
  from step_preserves[OF Cons.prems(1) v b1(1)] have
    s: "shape_ok b1" "tree_invariant b \<longrightarrow> tree_invariant b1" "capacity b1 = capacity b"
       "alpha b1 = alpha b"
    by simp_all
  from Cons.prems(2) s(3) have "list_all (valid_call (capacity b1)) cs" by simp
  from Cons.IH[OF s(1) this b1(2)] s show ?case by simp
qed

lemma run_total:
  assumes "shape_ok b" and "list_all (valid_call (capacity b)) cs" and "0 \<le> alpha b"
    and "\<not> list_ex is_sample cs" and "list_all (call_fits (state_dim b)) cs"
  shows "\<exists>b'. run b cs = Inr b'"
  using assms
proof (induction cs arbitrary: b)
  case Nil
  then show ?case by simp
next
  case (Cons c cs)
  from Cons.prems have v: "valid_call (capacity b) c" and ns: "\<not> is_sample c"
    and f: "call_fits (state_dim b) c" by simp_all
  from step_total[OF Cons.prems(1) v Cons.prems(3) ns f] obtain b1 where b1: "step b c = Inr b1"
    by blast
  from step_preserves[OF Cons.prems(1) v b1] step_state_dim[OF b1] have
    s: "shape_ok b1" "capacity b1 = capacity b" "alpha b1 = alpha b" "state_dim b1 = state_dim b"
    by simp_all
  from Cons.prems s have "list_all (valid_call (capacity b1)) cs" "0 \<le> alpha b1"
    "\<not> list_ex is_sample cs" "list_all (call_fits (state_dim b1)) cs" by simp_all
  from Cons.IH[OF s(1) this] b1 show ?case by simp
qed

lemma run_append: "run b (xs @ ys) = bind_err (run b xs) (\<lambda>b'. run b' ys)"
proof (induction xs arbitrary: b)
  case Nil
  show ?case by simp
next
  case (Cons x xs)
  show ?case
  proof (cases "step b x")
    case (Inl e)
    then show ?thesis by simp
  next
    case (Inr b1)
    with Cons.IH[of b1] show ?thesis by simp
  qed
qed

lemma push_slots:
  assumes "shape_ok b" and "stored (state_dim b) t = Inr t'"
  shows "\<exists>b'. push b t = Inr (PyNone, b') \<and> shape_ok b' \<and> capacity b' = capacity b \<and>
           state_dim b' = state_dim b \<and>
           slot b' (next_idx b) = t' \<and> (\<forall>j. j \<noteq> next_idx b \<longrightarrow> slot b' j = slot b j) \<and>
           next_idx b' = (next_idx b + 1) mod capacity b \<and>
           size_buf b' = min (capacity b) (size_buf b + 1)"
proof -
  from push_result[OF assms] obtain b' where
    p: "push b t = Inr (PyNone, b')"
    and c: "data_obs b' = (data_obs b)[next_idx b := obs t']"
       "data_action b' = (data_action b)[next_idx b := action t']"
       "data_reward b' = (data_reward b)[next_idx b := reward t']"
       "data_next_obs b' = (data_next_obs b)[next_idx b := next_obs t']"
       "data_done b' = (data_done b)[next_idx b := done_flag t']"
    and n: "next_idx b' = (next_idx b + 1) mod capacity b"
       "size_buf b' = min (capacity b) (size_buf b + 1)"
    by auto
  from assms(1) c have "slot b' (next_idx b) = t'"
    by (simp add: slot_def shape_ok_def)
  moreover from c have "\<forall>j. j \<noteq> next_idx b \<longrightarrow> slot b' j = slot b j"
    by (simp add: slot_def)
  moreover from push_preserves(1,3)[OF assms(1) p] have "shape_ok b'" "capacity b' = capacity b" .
  moreover from push_state_dim[OF p] have "state_dim b' = state_dim b" .
  ultimately show ?thesis using p n by blast
qed

lemma mod_differs:
  fixes i n c :: nat
  assumes "i < n" and "n < i + c"
  shows "i mod c \<noteq> n mod c"
proof
  assume "i mod c = n mod c"
  with assms(1) have "c dvd n - i"
    by (metis less_imp_le_nat mod_eq_dvd_iff_nat)
  moreover from assms have "0 < n - i" "n - i < c" by simp_all
  ultimately show False by (auto dest: dvd_imp_le)
qed

lemma push_sequence:
  assumes "0 < c" and "list_all (call_fits sd) (map Push ts)"
  shows "\<exists>b. run (init_buffer c a sd) (map Push ts) = Inr b \<and> shape_ok b \<and> capacity b = c \<and>
           state_dim b = sd \<and>
           next_idx b = length ts mod c \<and> size_buf b = min c (length ts) \<and>
           (\<forall>i<length ts. length ts \<le> i + c \<longrightarrow> stored sd (ts ! i) = Inr (slot b (i mod c)))"
  using assms(2)
proof (induction ts rule: rev_induct)
  case Nil
  from init_buffer_ok(1)[OF assms(1), of a sd] show ?case
    by (simp add: init_buffer_def)
next
  case (snoc t ts)
  let ?n = "length ts"
  from snoc.prems have fts: "list_all (call_fits sd) (map Push ts)" and ft: "call_fits sd (Push t)"
    by simp_all
  from snoc.IH[OF fts] obtain b where
    r: "run (init_buffer c a sd) (map Push ts) = Inr b"
    and s: "shape_ok b" and cap: "capacity b = c" and sd: "state_dim b = sd"
    and nx: "next_idx b = ?n mod c" and sz: "size_buf b = min c ?n"
    and old: "\<forall>i<?n. ?n \<le> i + c \<longrightarrow> stored sd (ts ! i) = Inr (slot b (i mod c))"
    by blast
  from ft sd obtain t' where t': "stored (state_dim b) t = Inr t'"
    by (auto split: sum.splits)
  from push_slots[OF s t'] obtain b' where
    p: "push b t = Inr (PyNone, b')" and s': "shape_ok b'" and cap': "capacity b' = capacity b"
    and sd': "state_dim b' = state_dim b"
    and new: "slot b' (next_idx b) = t'"
    and keep: "\<forall>j. j \<noteq> next_idx b \<longrightarrow> slot b' j = slot b j"
    and nx': "next_idx b' = (next_idx b + 1) mod capacity b"
    and sz': "size_buf b' = min (capacity b) (size_buf b + 1)"
    by blast
  from r p have "run (init_buffer c a sd) (map Push (ts @ [t])) = Inr b'"
    by (simp add: run_append)
  moreover from nx' nx cap have "next_idx b' = length (ts @ [t]) mod c"
    by (simp add: mod_Suc_eq)
  moreover from sz' sz cap have "size_buf b' = min c (length (ts @ [t]))"
    by simp
  moreover have "\<forall>i<length (ts @ [t]). length (ts @ [t]) \<le> i + c \<longrightarrow>
                   stored sd ((ts @ [t]) ! i) = Inr (slot b' (i mod c))"
  proof (intro allI impI)
    fix i assume i: "i < length (ts @ [t])" and w: "length (ts @ [t]) \<le> i + c"
    show "stored sd ((ts @ [t]) ! i) = Inr (slot b' (i mod c))"
    proof (cases "i = ?n")
      case True
      with new nx t' sd show ?thesis by simp
    next
      case False
      with i have lt: "i < ?n" by simp
      from w have "?n < i + c" by simp
      from mod_differs[OF lt this] nx have "i mod c \<noteq> next_idx b" by simp
      with keep have "slot b' (i mod c) = slot b (i mod c)" by blast
      moreover from old lt w have "stored sd (ts ! i) = Inr (slot b (i mod c))" by simp
      ultimately show ?thesis using lt by (simp add: nth_append)
    qed
  qed
  ultimately show ?case using s' cap' cap sd' sd by blast
qed

subsection \<open>Running the operations on explicit lists\<close>

lemma py_pow_one: "0 < x \<Longrightarrow> py_pow x 1 = Inr (fl64 x)"
  by (simp add: py_pow_def)

lemma list_update_numeral: "(x # xs)[numeral k := y] = x # xs[pred_numeral k := y]"
  by (simp add: numeral_eq_Suc)

lemma replicate_numeral_eval: "replicate (numeral k) x = x # replicate (pred_numeral k) x"
  by (simp add: numeral_eq_Suc)

lemmas eval_rules = init_buffer_def replicate_numeral_eval push_def Let_def list_set_def
  store_def to_row_def to_int32_def fadd_def
  set_priority_min_def set_priority_sum_def set_tree_def loop_step loop_stop
  list_update_numeral py_pow_one update_priorities_def sum_root_def min_root_def list_get_def

lemma run_buf4: "run (init_buffer 4 1 1) (map Push [tr0, tr0, tr0, tr0]) = Inr buf4"
  by (simp add: eval_rules tr0_def buf4_def)

lemma update_buf5: "update_priorities buf4 [0, 1, 2, 3] [1, 2, 3, 4] = Inr buf5"
  by (simp add: eval_rules buf4_def buf5_def)

lemma find_buf5_low: "find_prefix_sum_idx buf5 (1 / 2) = Some (Inr (0, [2, 4]))"
  by (simp add: find_prefix_sum_idx_def buf5_def buf4_def find_left find_right find_stop)

lemma fl64_69_10: "fl64 (69 / 10) = 3884354678607053 / 562949953421312"
proof -
  have "fl64 (69 / 10) = of_int (round_half_even ((69 / 10) / 2 powi (2 - 52))) * 2 powi (2 - 52)"
    by (rule fl64_eval) simp_all
  also have "\<dots> = 3884354678607053 / 562949953421312"
    by (simp add: round_half_even_def power_int_minus)
  finally show ?thesis .
qed

lemma find_buf5_high: "find_prefix_sum_idx buf5 (99 / 10) = Some (Inr (3, [2, 6]))"
  by (simp add: find_prefix_sum_idx_def buf5_def buf4_def find_left find_right find_stop
      fsub_def fl64_69_10)

lemma push_buf6: "push buf5 tr5 = Inr (PyNone, buf6)"
  by (simp add: eval_rules buf4_def buf5_def buf6_def tr5_def)

subsection \<open>The descent in a tree whose capacity is a power of two\<close>

lemma cumulative_sum: "cumulative b i = sum ((!) (priority_sum b)) {capacity b..<i + capacity b}"
proof -
  have "cumulative b i = sum (\<lambda>j. priority_sum b ! (j + capacity b)) {0..<i}"
    by (simp add: cumulative_def leaf_def interv_sum_list_conv_sum_set_nat)
  also have "\<dots> = sum ((!) (priority_sum b)) {0 + capacity b..<i + capacity b}"
    by (rule sum.shift_bounds_nat_ivl[symmetric])
  finally show ?thesis by simp
qed

lemma tree_inv_upt:
  "tree_inv f c xs = list_all (\<lambda>n. xs ! n = f (xs ! (2 * n)) (xs ! (2 * n + 1))) [1..<c]"
  by (simp add: tree_inv_def list_all_iff)

lemma run_buf3:
  "run (init_buffer 3 1 1) [Push tr0, Push tr0, Push tr0, Update [0, 1, 2] [1, 2, 3]] = Inr buf3"
  by (simp add: eval_rules tr0_def buf3_def)

subsection \<open>The descent where nothing rounds, and where something does\<close>

lemma grid_iff: "grid j x \<longleftrightarrow> (\<exists>n::nat. x = of_nat n * 2 powi j)"
proof
  assume g: "grid j x"
  then have "0 \<le> x / 2 powi j" by (simp add: grid_def)
  then have "0 \<le> \<lfloor>x / 2 powi j\<rfloor>" by simp
  then obtain n :: nat where n: "\<lfloor>x / 2 powi j\<rfloor> = int n"
    using nonneg_int_cases by blast
  with g have "x / 2 powi j = of_nat n" by (simp add: grid_def)
  then have "x = of_nat n * 2 powi j" by (simp add: field_simps)
  then show "\<exists>n::nat. x = of_nat n * 2 powi j" ..
next
  assume "\<exists>n::nat. x = of_nat n * 2 powi j"
  then obtain n :: nat where "x = of_nat n * 2 powi j" ..
  then show "grid j x" by (simp add: grid_def)
qed

lemma grid_zero [simp]: "grid j 0"
  by (simp add: grid_def)

lemma grid_add: "grid j x \<Longrightarrow> grid j y \<Longrightarrow> grid j (x + y)"
proof -
  assume "grid j x" "grid j y"
  then obtain n m :: nat where "x = of_nat n * 2 powi j" "y = of_nat m * 2 powi j"
    by (auto simp: grid_iff)
  then have "x + y = of_nat (n + m) * 2 powi j" by (simp add: algebra_simps)
  then show ?thesis unfolding grid_iff ..
qed

lemma grid_diff: "grid j x \<Longrightarrow> grid j y \<Longrightarrow> y \<le> x \<Longrightarrow> grid j (x - y)"
proof -
  assume "grid j x" "grid j y" and le: "y \<le> x"
  then obtain n m :: nat where xy: "x = of_nat n * 2 powi j" "y = of_nat m * 2 powi j"
    by (auto simp: grid_iff)
  with le have "(of_nat m :: real) \<le> of_nat n" by simp
  then have "m \<le> n" by simp
  with xy have "x - y = of_nat (n - m) * 2 powi j" by (simp add: algebra_simps of_nat_diff)
  then show ?thesis unfolding grid_iff ..
qed

lemma grid_sum: "(\<And>i. i \<in> A \<Longrightarrow> grid j (f i)) \<Longrightarrow> grid j (sum f A)"
  by (induction A rule: infinite_finite_induct) (simp_all add: grid_add)

lemma grid_exact:
  assumes "- 1074 \<le> j" and "grid j x" and "x < 2 ^ 53 * 2 powi j"
  shows "fl64 x = x"
proof -
  from assms(2) obtain n :: nat where x: "x = of_nat n * 2 powi j" by (auto simp: grid_iff)
  with assms(3) have "(of_nat n :: real) < 2 ^ 53" by simp
  then have "n < 2 ^ 53" by (metis of_nat_less_iff of_nat_numeral of_nat_power)
  then have "\<bar>int n\<bar> < 2 ^ 53" by simp
  moreover from x have "x = of_int (int n) * 2 powi j" by simp
  ultimately show ?thesis
    unfolding fl64_def using assms(1) by (intro fl_round_exact[of x "int n" j]) simp_all
qed

lemma exact_subtree:
  assumes "tree_inv fadd c ps" and "- 1074 \<le> j"
    and "\<forall>l\<in>{c..<2 * c}. grid j (ps ! l)"
    and "sum ((!) ps) {c..<2 * c} < 2 ^ 53 * 2 powi j"
  shows "c \<le> n * 2 ^ m \<Longrightarrow> (n + 1) * 2 ^ m \<le> 2 * c \<Longrightarrow>
         ps ! n = sum ((!) ps) {n * 2 ^ m..<(n + 1) * 2 ^ m}"
proof (induction m arbitrary: n)
  case 0
  then show ?case by simp
next
  case (Suc m)
  let ?a = "(2::nat) ^ m"
  have a: "1 \<le> ?a" by simp
  have e: "n * 2 ^ Suc m = 2 * n * ?a" "(n + 1) * 2 ^ Suc m = (2 * n + 1 + 1) * ?a"
    "(2 * n + 1) * ?a = 2 * n * ?a + ?a" "(2 * n + 1 + 1) * ?a = 2 * n * ?a + ?a + ?a"
    by (simp_all add: algebra_simps)
  from Suc.prems e have lo: "c \<le> 2 * n * ?a" and hi: "2 * n * ?a + ?a + ?a \<le> 2 * c"
    by simp_all
  from hi have "(n + 1) * ?a \<le> c" by (simp add: algebra_simps)
  with a have "n + 1 \<le> c"
    by (metis dual_order.trans mult.right_neutral mult_le_mono2)
  moreover have "1 \<le> n"
  proof (rule ccontr)
    assume "\<not> 1 \<le> n"
    then have "n = 0" by simp
    with lo hi a show False by simp
  qed
  ultimately have "n \<in> {1..<c}" by simp
  with assms(1) have split: "ps ! n = fadd (ps ! (2 * n)) (ps ! (2 * n + 1))"
    by (simp add: tree_inv_def)
  from lo hi e have l: "c \<le> 2 * n * ?a" "(2 * n + 1) * ?a \<le> 2 * c" by simp_all
  from lo hi e have r: "c \<le> (2 * n + 1) * ?a" "(2 * n + 1 + 1) * ?a \<le> 2 * c" by simp_all
  let ?S = "sum ((!) ps) {2 * n * ?a..<(2 * n + 1 + 1) * ?a}"
  have "sum ((!) ps) {2 * n * ?a..<(2 * n + 1) * ?a} +
        sum ((!) ps) {(2 * n + 1) * ?a..<(2 * n + 1 + 1) * ?a} = ?S"
    by (rule sum.atLeastLessThan_concat) (simp_all add: e)
  with Suc.IH[OF l] Suc.IH[OF r] split have "ps ! n = fl64 ?S"
    by (simp add: fadd_def)
  moreover have "fl64 ?S = ?S"
  proof (rule grid_exact[OF assms(2)])
    have sub: "{2 * n * ?a..<(2 * n + 1 + 1) * ?a} \<subseteq> {c..<2 * c}"
      using lo hi e by auto
    with assms(3) show "grid j ?S" by (intro grid_sum) auto
    have "?S \<le> sum ((!) ps) {c..<2 * c}"
    proof (rule sum_mono2)
      show "finite {c..<2 * c}" by simp
      show "{2 * n * ?a..<(2 * n + 1 + 1) * ?a} \<subseteq> {c..<2 * c}" by (rule sub)
      fix b assume "b \<in> {c..<2 * c} - {2 * n * ?a..<(2 * n + 1 + 1) * ?a}"
      with assms(3) show "0 \<le> ps ! b" by (auto simp: grid_def)
    qed
    with assms(4) show "?S < 2 ^ 53 * 2 powi j" by simp
  qed
  ultimately show ?case by (simp only: e)
qed

lemma find_aligned:
  assumes "tree_inv fadd c ps" and "length ps = 2 * c" and "- 1074 \<le> j"
    and "\<forall>l\<in>{c..<2 * c}. grid j (ps ! l)"
    and "sum ((!) ps) {c..<2 * c} < 2 ^ 53 * 2 powi j"
  shows "c \<le> n * 2 ^ m \<Longrightarrow> (n + 1) * 2 ^ m \<le> 2 * c \<Longrightarrow> grid j p \<Longrightarrow> p < ps ! n \<Longrightarrow>
         \<exists>i tr. find_prefix_loop c ps n p rd = Some (Inr (i, tr)) \<and>
           n * 2 ^ m \<le> i + c \<and> i + c < (n + 1) * 2 ^ m \<and>
           sum ((!) ps) {n * 2 ^ m..<i + c} \<le> p \<and>
           p < sum ((!) ps) {n * 2 ^ m..<i + c + 1}"
proof (induction m arbitrary: n p rd)
  case 0
  then have "find_prefix_loop c ps n p rd = Some (Inr (n - c, rd))"
    by (simp add: find_stop)
  with 0 show ?case by (simp add: grid_def)
next
  case (Suc m)
  note sub = exact_subtree[OF assms(1,3,4,5)]
  let ?a = "(2::nat) ^ m"
  have a: "1 \<le> ?a" by simp
  have e: "n * 2 ^ Suc m = 2 * n * ?a" "(n + 1) * 2 ^ Suc m = (2 * n + 1 + 1) * ?a"
    "(2 * n + 1) * ?a = 2 * n * ?a + ?a" "(2 * n + 1 + 1) * ?a = 2 * n * ?a + ?a + ?a"
    by (simp_all add: algebra_simps)
  from Suc.prems e have lo: "c \<le> 2 * n * ?a" and hi: "2 * n * ?a + ?a + ?a \<le> 2 * c"
    by simp_all
  from hi have "(n + 1) * ?a \<le> c" by (simp add: algebra_simps)
  with a have n_lt: "n + 1 \<le> c"
    by (metis dual_order.trans mult.right_neutral mult_le_mono2)
  from n_lt assms(2) have inside: "n < c" "2 * n < length ps" by simp_all
  from lo hi e have l: "c \<le> 2 * n * ?a" "(2 * n + 1) * ?a \<le> 2 * c" by simp_all
  from lo hi e have r: "c \<le> (2 * n + 1) * ?a" "(2 * n + 1 + 1) * ?a \<le> 2 * c" by simp_all
  have left: "ps ! (2 * n) = sum ((!) ps) {2 * n * ?a..<(2 * n + 1) * ?a}"
    by (rule sub[OF l])
  have right: "ps ! (2 * n + 1) = sum ((!) ps) {(2 * n + 1) * ?a..<(2 * n + 1 + 1) * ?a}"
    by (rule sub[OF r])
  have whole: "ps ! n = sum ((!) ps) {2 * n * ?a..<(2 * n + 1 + 1) * ?a}"
    using sub[OF Suc.prems(1,2)] by (simp only: e)
  have "sum ((!) ps) {2 * n * ?a..<(2 * n + 1) * ?a} +
        sum ((!) ps) {(2 * n + 1) * ?a..<(2 * n + 1 + 1) * ?a} =
        sum ((!) ps) {2 * n * ?a..<(2 * n + 1 + 1) * ?a}"
    by (rule sum.atLeastLessThan_concat) (simp_all add: e)
  with left right whole have split: "ps ! n = ps ! (2 * n) + ps ! (2 * n + 1)" by simp
  show ?case
  proof (cases "p < ps ! (2 * n)")
    case True
    from Suc.IH[OF l Suc.prems(3) True, of "rd @ [n * 2]"] obtain i tr where
      f: "find_prefix_loop c ps (2 * n) p (rd @ [n * 2]) = Some (Inr (i, tr))"
      and b: "2 * n * ?a \<le> i + c" "i + c < (2 * n + 1) * ?a"
      and s: "sum ((!) ps) {2 * n * ?a..<i + c} \<le> p" "p < sum ((!) ps) {2 * n * ?a..<i + c + 1}"
      by blast
    from f True inside have "find_prefix_loop c ps n p rd = Some (Inr (i, tr))"
      by (simp add: find_left)
    moreover from b e have "n * 2 ^ Suc m \<le> i + c" "i + c < (n + 1) * 2 ^ Suc m" by simp_all
    ultimately show ?thesis using s by (auto simp only: e)
  next
    case False
    let ?q = "p - ps ! (2 * n)"
    have gl: "grid j (ps ! (2 * n))"
      unfolding left using l lo assms(4) by (intro grid_sum) auto
    from False have le: "ps ! (2 * n) \<le> p" by simp
    from grid_diff[OF Suc.prems(3) gl le] have gq: "grid j ?q" .
    from gl have "0 \<le> ps ! (2 * n)" by (simp add: grid_def)
    with Suc.prems(4) have "?q < ps ! n" by simp
    also have "ps ! n \<le> sum ((!) ps) {c..<2 * c}"
      unfolding whole
    proof (rule sum_mono2)
      show "finite {c..<2 * c}" by simp
      show "{2 * n * ?a..<(2 * n + 1 + 1) * ?a} \<subseteq> {c..<2 * c}" using lo hi e by auto
      fix b assume "b \<in> {c..<2 * c} - {2 * n * ?a..<(2 * n + 1 + 1) * ?a}"
      with assms(4) show "0 \<le> ps ! b" by (auto simp: grid_def)
    qed
    finally have "?q < 2 ^ 53 * 2 powi j" using assms(5) by simp
    from grid_exact[OF assms(3) gq this] have fq: "fsub p (ps ! (2 * n)) = ?q"
      by (simp add: fsub_def)
    from False Suc.prems(4) split have q: "?q < ps ! (2 * n + 1)" by simp
    from Suc.IH[OF r gq q, of "rd @ [n * 2]"] obtain i tr where
      f: "find_prefix_loop c ps (2 * n + 1) ?q (rd @ [n * 2]) = Some (Inr (i, tr))"
      and b: "(2 * n + 1) * ?a \<le> i + c" "i + c < (2 * n + 1 + 1) * ?a"
      and s: "sum ((!) ps) {(2 * n + 1) * ?a..<i + c} \<le> ?q"
             "?q < sum ((!) ps) {(2 * n + 1) * ?a..<i + c + 1}"
      by blast
    from f False inside fq have "find_prefix_loop c ps n p rd = Some (Inr (i, tr))"
      by (simp add: find_right)
    moreover from b e have "n * 2 ^ Suc m \<le> i + c" "i + c < (n + 1) * 2 ^ Suc m" by simp_all
    moreover have "sum ((!) ps) {2 * n * ?a..<i + c} =
          sum ((!) ps) {2 * n * ?a..<(2 * n + 1) * ?a} + sum ((!) ps) {(2 * n + 1) * ?a..<i + c}"
      using b by (intro sum.atLeastLessThan_concat[symmetric]) (simp_all add: e)
    with left s(1) have "sum ((!) ps) {2 * n * ?a..<i + c} \<le> p" by simp
    moreover have "sum ((!) ps) {2 * n * ?a..<i + c + 1} =
          sum ((!) ps) {2 * n * ?a..<(2 * n + 1) * ?a} + sum ((!) ps) {(2 * n + 1) * ?a..<i + c + 1}"
      using b by (intro sum.atLeastLessThan_concat[symmetric]) (simp_all add: e)
    with left s(2) have "p < sum ((!) ps) {2 * n * ?a..<i + c + 1}" by simp
    ultimately show ?thesis by (auto simp only: e)
  qed
qed

lemma fl64_round_sums:
  "fl64 (10808639105689191 / 36028797018963968) = 1351079888211149 / 4503599627370496"
  "fl64 (3602879701896397 / 18014398509481984) = 3602879701896397 / 18014398509481984"
  "fl64 (9007199254740993 / 18014398509481984) = 1 / 2"
  "fl64 (900719925474099 / 9007199254740992) = 900719925474099 / 9007199254740992"
proof -
  have "fl64 (10808639105689191 / 36028797018963968) =
      of_int (round_half_even ((10808639105689191 / 36028797018963968) / 2 powi (- 2 - 52)))
        * 2 powi (- 2 - 52)"
    by (rule fl64_eval) (simp_all add: power_int_minus)
  then show "fl64 (10808639105689191 / 36028797018963968) = 1351079888211149 / 4503599627370496"
    by (simp add: round_half_even_def power_int_minus)
  have "fl64 (3602879701896397 / 18014398509481984) =
      of_int (round_half_even ((3602879701896397 / 18014398509481984) / 2 powi (- 3 - 52)))
        * 2 powi (- 3 - 52)"
    by (rule fl64_eval) (simp_all add: power_int_minus)
  then show "fl64 (3602879701896397 / 18014398509481984) = 3602879701896397 / 18014398509481984"
    by (simp add: round_half_even_def power_int_minus)
  have "fl64 (9007199254740993 / 18014398509481984) =
      of_int (round_half_even ((9007199254740993 / 18014398509481984) / 2 powi (- 1 - 52)))
        * 2 powi (- 1 - 52)"
    by (rule fl64_eval) (simp_all add: power_int_minus)
  then show "fl64 (9007199254740993 / 18014398509481984) = 1 / 2"
    by (simp add: round_half_even_def power_int_minus)
  have "fl64 (900719925474099 / 9007199254740992) =
      of_int (round_half_even ((900719925474099 / 9007199254740992) / 2 powi (- 4 - 52)))
        * 2 powi (- 4 - 52)"
    by (rule fl64_eval) (simp_all add: power_int_minus)
  then show "fl64 (900719925474099 / 9007199254740992) = 900719925474099 / 9007199254740992"
    by (simp add: round_half_even_def power_int_minus)
qed

lemma descent_rounding:
  "capacity buf_round = 2 ^ 2 \<and> shape_ok buf_round \<and> tree_invariant buf_round \<and>
   sum_root buf_round = Inr (1 / 2) \<and>
   (0::real) \<le> 3602879701896397 / 9007199254740992 \<and>
   (3602879701896397 / 9007199254740992 :: real) < 1 / 2 \<and>
   find_prefix_sum_idx buf_round (3602879701896397 / 9007199254740992) = Some (Inr (2, [2, 6])) \<and>
   cumulative buf_round (2 + 1) = 3602879701896397 / 9007199254740992"
proof -
  have "shape_ok buf_round" by (simp add: shape_ok_def buf_round_def)
  moreover have "tree_invariant buf_round"
    by (simp add: tree_invariant_def buf_round_def tree_inv_upt upt_conv_Cons fadd_def
        fl64_round_sums)
  moreover have "sum_root buf_round = Inr (1 / 2)"
    by (simp add: sum_root_def list_get_def buf_round_def)
  moreover have "find_prefix_sum_idx buf_round (3602879701896397 / 9007199254740992)
      = Some (Inr (2, [2, 6]))"
    by (simp add: find_prefix_sum_idx_def buf_round_def find_left find_right find_stop
        fsub_def fl64_round_sums)
  moreover have "cumulative buf_round (2 + 1) = 3602879701896397 / 9007199254740992"
    by (simp add: cumulative_def leaf_def buf_round_def upt_conv_Cons)
  ultimately show ?thesis by (simp add: buf_round_def)
qed

subsection \<open>Roots and leaves\<close>









subsection \<open>The leaves of the two trees agree\<close>








subsection \<open>Sampling\<close>

lemma map_err_all:
  "\<forall>x\<in>set xs. \<exists>y. f x = Inr y \<and> P y \<Longrightarrow>
   \<exists>ys. map_err f xs = Inr ys \<and> length ys = length xs \<and> (\<forall>y\<in>set ys. P y)"
proof (induction xs)
  case Nil
  show ?case by simp
next
  case (Cons x xs)
  then obtain y ys where "f x = Inr y" "P y" "map_err f xs = Inr ys" "length ys = length xs"
    "\<forall>y\<in>set ys. P y"
    by auto
  then show ?case by simp
qed

lemma map_err_Inr:
  "map_err f xs = Inr ys \<Longrightarrow> length ys = length xs \<and> (\<forall>y\<in>set ys. \<exists>x\<in>set xs. f x = Inr y)"
proof (induction xs arbitrary: ys)
  case Nil
  then show ?case by simp
next
  case (Cons x xs)
  then obtain y zs where "f x = Inr y" "map_err f xs = Inr zs" "ys = y # zs"
    by (auto split: sum.splits)
  with Cons.IH[of zs] show ?case by auto
qed

lemma draw_indexes_all:
  "\<forall>i\<in>set js. \<exists>idx. draw_index b rnd i = Some (Inr idx) \<and> Q idx \<Longrightarrow>
   \<exists>idxs. draw_indexes b rnd js = Some (Inr idxs) \<and> length idxs = length js \<and>
          (\<forall>idx\<in>set idxs. Q idx)"
proof (induction js)
  case Nil
  show ?case by simp
next
  case (Cons j js)
  then obtain idx idxs where "draw_index b rnd j = Some (Inr idx)" "Q idx"
    "draw_indexes b rnd js = Some (Inr idxs)" "length idxs = length js" "\<forall>idx\<in>set idxs. Q idx"
    by auto
  then show ?case by simp
qed

lemma sum_root_shape: "shape_ok b \<Longrightarrow> sum_root b = Inr (priority_sum b ! 1)"
  by (simp add: sum_root_def list_get_def shape_ok_def)

lemma min_root_shape: "shape_ok b \<Longrightarrow> min_root b = Inr (priority_min b ! 1)"
  by (simp add: min_root_def list_get_def shape_ok_def)




lemma int32_add_small:
  assumes "idx < cap" and "cap \<le> 2 ^ 30"
  shows "int32_add (int idx) (int cap) = Inr (int (idx + cap))"
proof -
  from assms have "int idx + int cap < 2 ^ 31" "int cap < 2 ^ 31" by simp_all
  moreover have "0 \<le> int idx + int cap" by simp
  ultimately show ?thesis by (simp add: int32_add_def)
qed

lemma py_list_get_nat: "i < length xs \<Longrightarrow> py_list_get xs (int i) = Inr (xs ! i)"
  by (simp add: py_list_get_def)

lemma py_list_get_add:
  "i + c < length xs \<Longrightarrow> py_list_get xs (int i + int c) = Inr (xs ! (i + c))"
  using py_list_get_nat[of "i + c" xs] by simp


lemma draw_index_ok:
  assumes "shape_ok b" and "capacity b \<le> 2 ^ 30"
  shows "\<exists>idx. draw_index b rnd i = Some (Inr (int idx)) \<and> idx < capacity b"
proof -
  let ?s = "priority_sum b ! 1"
  from assms(1) have l: "length (priority_sum b) = 2 * capacity b" and c: "1 < 2 * capacity b"
    by (simp_all add: shape_ok_def)
  from find_total[OF order_refl c l, of "fmul (rnd i) ?s" "[]"] obtain idx tr where
    f: "find_prefix_sum_idx b (fmul (rnd i) ?s) = Some (Inr (idx, tr))" and lt: "idx < capacity b"
    unfolding find_prefix_sum_idx_def by auto
  from lt assms(2) have "int idx < 2 ^ 31" by simp
  then have "to_int32 (int idx) = Inr (int idx)" by (simp add: to_int32_def)
  with f have "draw_index b rnd i = Some (Inr (int idx))"
    by (simp add: draw_index_def sum_root_shape[OF assms(1)])
  with lt show ?thesis by blast
qed


lemma sample_result_ok:
  assumes "shape_ok b" and "\<forall>k\<in>set idxs. \<exists>idx. k = int idx \<and> idx < capacity b"
    and "max_weight_of b beta = Inr mw"
    and "\<forall>k\<in>set idxs. \<exists>w. weight_of b beta mw k = Inr w \<and> P w"
  shows "\<exists>s. sample_result b beta idxs = Inr s \<and> length (weights s) = length idxs \<and>
           (\<forall>w\<in>set (weights s). P w)"
proof -
  from map_err_all[OF assms(4)] obtain ws where
    ws: "map_err (weight_of b beta mw) idxs = Inr ws" "length ws = length idxs" "\<forall>w\<in>set ws. P w"
    by blast
  have col: "\<exists>ys. map_err (py_list_get xs) idxs = Inr ys" if "length xs = capacity b"
    for xs :: "'a list"
  proof -
    have "\<forall>k\<in>set idxs. \<exists>y. py_list_get xs k = Inr y \<and> True"
    proof
      fix k assume "k \<in> set idxs"
      with assms(2) obtain idx where "k = int idx" "idx < capacity b" by blast
      with that show "\<exists>y. py_list_get xs k = Inr y \<and> True" by (simp add: py_list_get_nat)
    qed
    from map_err_all[OF this] show ?thesis by blast
  qed
  from assms(1) col obtain c1 c2 c3 c4 c5 where
    "map_err (py_list_get (data_obs b)) idxs = Inr c1"
    "map_err (py_list_get (data_action b)) idxs = Inr c2"
    "map_err (py_list_get (data_reward b)) idxs = Inr c3"
    "map_err (py_list_get (data_next_obs b)) idxs = Inr c4"
    "map_err (py_list_get (data_done b)) idxs = Inr c5"
    unfolding shape_ok_def by metis
  with assms(3) ws show ?thesis by (simp add: sample_result_def)
qed

lemma sample_Inr:
  assumes "sample b n rnd beta = Some (Inr s, b')"
  shows "\<exists>idxs mw. draw_indexes b rnd [0..<n] = Some (Inr idxs) \<and>
           max_weight_of b beta = Inr mw \<and>
           map_err (weight_of b beta mw) idxs = Inr (weights s)"
proof -
  from assms obtain idxs where "draw_indexes b rnd [0..<n] = Some (Inr idxs)"
    "sample_result b beta idxs = Inr s"
    by (auto simp: sample_def split: option.splits sum.splits)
  then show ?thesis
    by (auto simp: sample_result_def bind_err_eq_Inr)
qed

lemma py_pow_zero [simp]: "py_pow x 0 = Inr 1"
  by (simp add: py_pow_def)

lemma max_weight_beta_zero: "max_weight_of b 0 = Inr mw \<Longrightarrow> mw = 1"
  by (auto simp: max_weight_of_def bind_err_eq_Inr split: if_splits xreal.splits)

lemma weight_beta_zero: "weight_of b 0 1 idx = Inr w \<Longrightarrow> w = Finite 1"
  by (auto simp: weight_of_def bind_err_eq_Inr py_div_def split: if_splits)

lemma sample_beta_zero:
  assumes "sample b n rnd 0 = Some (Inr s, b')"
  shows "\<forall>w\<in>set (weights s). w = Finite 1"
proof -
  from sample_Inr[OF assms] obtain idxs mw where
    mw: "max_weight_of b 0 = Inr mw" and ws: "map_err (weight_of b 0 mw) idxs = Inr (weights s)"
    by blast
  from max_weight_beta_zero[OF mw] have "mw = 1" .
  with map_err_Inr[OF ws] show ?thesis
    by (auto dest: weight_beta_zero)
qed

lemma sample_beta_zero_total:
  assumes "shape_ok b" and "capacity b \<le> 2 ^ 30"
    and "priority_sum b ! 1 \<noteq> 0" and "priority_min b ! 1 \<noteq> PInf"
  shows "\<exists>s. sample b n rnd 0 = Some (Inr s, b) \<and> length (weights s) = n"
proof -
  let ?c = "capacity b"
  from draw_index_ok[OF assms(1,2)]
  have "\<forall>i\<in>set [0..<n]. \<exists>k. draw_index b rnd i = Some (Inr k) \<and>
          (\<exists>idx. k = int idx \<and> idx < ?c)" by blast
  from draw_indexes_all[OF this] obtain idxs where
    d: "draw_indexes b rnd [0..<n] = Some (Inr idxs)" "length idxs = n"
       "\<forall>k\<in>set idxs. \<exists>idx. k = int idx \<and> idx < ?c"
    by auto
  from assms(1,3,4) have mw: "max_weight_of b 0 = Inr 1"
    by (auto simp: max_weight_of_def sum_root_shape min_root_shape py_div_def split: xreal.splits)
  have "\<forall>k\<in>set idxs. \<exists>w. weight_of b 0 1 k = Inr w \<and> True"
  proof
    fix k assume "k \<in> set idxs"
    with d(3) obtain idx where k: "k = int idx" and lt: "idx < ?c" by blast
    from lt assms(1) have "idx + ?c < length (priority_sum b)" by (simp add: shape_ok_def)
    with assms(1,3) k show "\<exists>w. weight_of b 0 1 k = Inr w \<and> True"
      by (simp add: weight_of_def int32_add_small[OF lt assms(2)] py_list_get_add
          sum_root_shape py_div_def)
  qed
  from sample_result_ok[OF assms(1) d(3) mw this] d show ?thesis
    by (auto simp: sample_def)
qed

subsection \<open>The exponent alpha = 0\<close>

lemma push_alpha_zero:
  assumes "shape_ok b" and "alpha b = 0" and "stored (state_dim b) t = Inr t'"
  shows "\<exists>b'. push b t = Inr (PyNone, b') \<and> leaf b' (next_idx b) = 1 \<and>
           priority_min b' ! (next_idx b + capacity b) = Fin 1"
proof -
  from assms(1) have i: "next_idx b < capacity b"
    and lm: "length (priority_min b) = 2 * capacity b"
    and ls: "length (priority_sum b) = 2 * capacity b"
    and mp: "max_priority b \<noteq> 0"
    by (auto simp: shape_ok_def)
  from push_result[OF assms(1,3)] obtain tm ts b' where
    tm: "set_tree xmin (capacity b) (priority_min b) (next_idx b)
           (Fin (fl64 (max_priority b powr alpha b))) = Inr tm"
    and ts: "set_tree fadd (capacity b) (priority_sum b) (next_idx b)
           (fl64 (max_priority b powr alpha b)) = Inr ts"
    and p: "push b t = Inr (PyNone, b')"
    and b': "capacity b' = capacity b" "priority_min b' = tm" "priority_sum b' = ts"
    by auto
  from set_tree_props(2)[OF i lm tm] set_tree_props(2)[OF i ls ts] assms(2) mp b' p
  show ?thesis by (auto simp: leaf_def)
qed

lemma update_loop_alpha_zero:
  assumes "shape_ok b" and "alpha b = 0" and "list_all (\<lambda>(i, p). i < capacity b \<and> 0 \<le> p) xs"
  shows "\<exists>b'. update_priorities_loop b xs = Inr b' \<and> capacity b' = capacity b \<and>
           (\<forall>j<capacity b.
              j \<in> fst ` set xs \<or>
              (leaf b j = 1 \<and> priority_min b ! (j + capacity b) = Fin 1) \<longrightarrow>
              leaf b' j = 1 \<and> priority_min b' ! (j + capacity b) = Fin 1)"
  using assms
proof (induction xs arbitrary: b)
  case Nil
  then show ?case by simp
next
  case (Cons x xs)
  obtain idx p where x: "x = (idx, p)" by (cases x)
  with Cons.prems have i: "idx < capacity b" by simp
  from Cons.prems(1) have lm: "length (priority_min b) = 2 * capacity b"
    and ls: "length (priority_sum b) = 2 * capacity b"
    by (simp_all add: shape_ok_def)
  from Cons.prems(2) have v: "py_pow p (alpha b) = Inr 1" by simp
  from update_cons[OF Cons.prems(1) i v, of xs] obtain tm ts where
    tm: "set_tree xmin (capacity b) (priority_min b) idx (Fin 1) = Inr tm"
    and ts: "set_tree fadd (capacity b) (priority_sum b) idx 1 = Inr ts"
    and step: "update_priorities_loop b ((idx, p) # xs) =
       update_priorities_loop
         (b\<lparr>max_priority := max (max_priority b) p, priority_min := tm, priority_sum := ts\<rparr>) xs"
    by blast
  let ?b = "b\<lparr>max_priority := max (max_priority b) p, priority_min := tm, priority_sum := ts\<rparr>"
  from shape_ok_trees[OF Cons.prems(1) i tm ts] Cons.prems(1) have s: "shape_ok ?b"
    by (auto simp: shape_ok_def)
  from Cons.prems have a: "alpha ?b = 0"
    and la: "list_all (\<lambda>(i, p). i < capacity ?b \<and> 0 \<le> p) xs" by simp_all
  from Cons.IH[OF s a la] obtain b' where
    r: "update_priorities_loop ?b xs = Inr b'" and c: "capacity b' = capacity b"
    and ih: "\<forall>j<capacity b.
              j \<in> fst ` set xs \<or>
              (leaf ?b j = 1 \<and> priority_min ?b ! (j + capacity b) = Fin 1) \<longrightarrow>
              leaf b' j = 1 \<and> priority_min b' ! (j + capacity b) = Fin 1"
    by auto
  note m = set_tree_props(2,3)[OF i lm tm]
  note su = set_tree_props(2,3)[OF i ls ts]
  have "leaf b' j = 1 \<and> priority_min b' ! (j + capacity b) = Fin 1"
    if j: "j < capacity b"
      and h: "j \<in> fst ` set (x # xs) \<or> (leaf b j = 1 \<and> priority_min b ! (j + capacity b) = Fin 1)"
    for j
  proof -
    have "j \<in> fst ` set xs \<or> (leaf ?b j = 1 \<and> priority_min ?b ! (j + capacity b) = Fin 1)"
    proof (cases "j = idx")
      case True
      with m(1) su(1) show ?thesis by (simp add: leaf_def)
    next
      case False
      then have "tm ! (j + capacity b) = priority_min b ! (j + capacity b)"
        "ts ! (j + capacity b) = priority_sum b ! (j + capacity b)"
        using m(2)[of "j + capacity b"] su(2)[of "j + capacity b"] by simp_all
      with h False x show ?thesis by (auto simp: leaf_def)
    qed
    with ih j show ?thesis by blast
  qed
  with r c step x show ?case by auto
qed

subsection \<open>Weights between 0 and 1\<close>




subsection \<open>Sampling on explicit buffers\<close>

lemma fl64_dyadic [simp]: "fl64 (1 / 2) = 1 / 2" "fl64 (1 / 4) = 1 / 4" "fl64 (1 / 8) = 1 / 8"
  using fl_round_exact[of "1 / 2" 1 "- 1" 53 "- 1022"] fl_round_exact[of "1 / 4" 1 "- 2" 53 "- 1022"]
    fl_round_exact[of "1 / 8" 1 "- 3" 53 "- 1022"]
  by (simp_all add: fl64_def power_int_minus)

lemma float32_quarter [simp]: "to_float32 (Finite (1 / 4)) = Finite (1 / 4)"
  using fl_round_exact[of "1 / 4" 1 "- 2" 24 "- 126"]
  by (simp add: to_float32.simps(1) power_int_minus)

lemma run_buf5:
  "run (init_buffer 4 1 1)
     [Push tr0, Push tr0, Push tr0, Push tr0, Update [0, 1, 2, 3] [1, 2, 3, 4]] = Inr buf5"
proof -
  have "run (init_buffer 4 1 1) (map Push [tr0, tr0, tr0, tr0] @ [Update [0, 1, 2, 3] [1, 2, 3, 4]])
        = Inr buf5"
    by (simp only: run_append run_buf4 bind_err_Inr run.simps step.simps update_buf5)
  then show ?thesis by (simp only: list.map append.simps)
qed










section \<open>The claims\<close>

text \<open>
  C10: for every positive capacity and every real argument, also a negative one or one
  beyond the total, \<open>find_prefix_sum_idx\<close> comes back with an index below the capacity,
  and every index of \<open>priority_sum\<close> it reads lies in \<open>[2, 2 * capacity)\<close>.
\<close>

theorem find_prefix_sum_idx_in_range:
  assumes "0 < capacity b" and "length (priority_sum b) = 2 * capacity b"
  shows "\<exists>i reads. find_prefix_sum_idx b p = Some (Inr (i, reads)) \<and> i < capacity b \<and>
           (\<forall>r\<in>set reads. 2 \<le> r \<and> r < 2 * capacity b)"
proof -
  from assms have "1 < 2 * capacity b" by simp
  from find_total[OF order_refl this assms(2), of p "[]"] show ?thesis
    unfolding find_prefix_sum_idx_def by auto
qed

theorem find_prefix_sum_idx_in_range_witness:
  "0 < capacity (init_buffer 3 1 1) \<and>
   length (priority_sum (init_buffer 3 1 1)) = 2 * capacity (init_buffer 3 1 1) \<and>
   (\<exists>i reads. find_prefix_sum_idx (init_buffer 3 1 1) (- 1) = Some (Inr (i, reads)) \<and>
      i < capacity (init_buffer 3 1 1) \<and>
      (\<forall>r\<in>set reads. 2 \<le> r \<and> r < 2 * capacity (init_buffer 3 1 1)))"
proof -
  have h1: "0 < capacity (init_buffer 3 1 1)"
    by (simp add: init_buffer_def)
  have h2: "length (priority_sum (init_buffer 3 1 1)) = 2 * capacity (init_buffer 3 1 1)"
    by (simp add: init_buffer_def)
  from find_prefix_sum_idx_in_range[OF h1 h2, of "- 1"] h1 h2 show ?thesis by blast
qed

text \<open>
  C1: started from a fresh buffer of positive capacity, after each call of a sequence of
  \<open>push\<close> and \<open>update_priorities\<close> calls (slots inside the ring, priorities not negative)
  every internal node \<open>n\<close> in \<open>[1, capacity)\<close> of the sum tree is the sum (as floats add),
  and of the min tree the minimum, of its children \<open>2 * n\<close> and \<open>2 * n + 1\<close>; with \<open>alpha \<ge> 0\<close> and
  transitions that the columns take each of these calls returns.
\<close>

theorem tree_invariant_after_calls:
  assumes "0 < cap" and "list_all (valid_call cap) cs"
  shows "(\<forall>k\<le>length cs. \<forall>b. run (init_buffer cap a sd) (take k cs) = Inr b \<longrightarrow>
            (\<forall>n\<in>{1..<cap}.
               priority_sum b ! n = fadd (priority_sum b ! (2 * n)) (priority_sum b ! (2 * n + 1)) \<and>
               priority_min b ! n = xmin (priority_min b ! (2 * n)) (priority_min b ! (2 * n + 1)))) \<and>
         (0 \<le> a \<and> \<not> list_ex is_sample cs \<and> list_all (call_fits sd) cs \<longrightarrow>
            (\<forall>k\<le>length cs. \<exists>b. run (init_buffer cap a sd) (take k cs) = Inr b))"
proof -
  let ?b0 = "init_buffer cap a sd"
  have c0: "capacity ?b0 = cap" and a0: "alpha ?b0 = a" and d0: "state_dim ?b0 = sd"
    by (simp_all add: init_buffer_def)
  have valid: "list_all (valid_call (capacity ?b0)) (take k cs)" for k
    using assms(2) c0 by (auto simp: list_all_iff dest: in_set_takeD)
  have "\<forall>n\<in>{1..<cap}.
          priority_sum b ! n = fadd (priority_sum b ! (2 * n)) (priority_sum b ! (2 * n + 1)) \<and>
          priority_min b ! n = xmin (priority_min b ! (2 * n)) (priority_min b ! (2 * n + 1))"
    if "run ?b0 (take k cs) = Inr b" for k b
  proof -
    from run_preserves[OF init_buffer_ok(1)[OF assms(1)] valid that] init_buffer_ok(2)[OF assms(1)] c0
    have "tree_invariant b" "capacity b = cap" by simp_all
    then show ?thesis by (simp add: tree_invariant_def tree_inv_def)
  qed
  moreover have "\<exists>b. run ?b0 (take k cs) = Inr b"
    if "0 \<le> a" "\<not> list_ex is_sample cs" "list_all (call_fits sd) cs" for k
  proof -
    from that(2) have ns: "\<not> list_ex is_sample (take k cs)"
      by (auto simp: list_ex_iff dest: in_set_takeD)
    from that(3) d0 have "list_all (call_fits (state_dim ?b0)) (take k cs)"
      by (auto simp: list_all_iff dest: in_set_takeD)
    from run_total[OF init_buffer_ok(1)[OF assms(1)] valid _ ns this] that(1) a0
    show ?thesis by simp
  qed
  ultimately show ?thesis by blast
qed

theorem tree_invariant_after_calls_witness:
  "list_all (valid_call 2) [Push tr0, Update [0] [3]] \<and>
   list_all (call_fits 1) [Push tr0, Update [0] [3]] \<and>
   (\<exists>b. run (init_buffer 2 1 1) [Push tr0, Update [0] [3]] = Inr b \<and>
        (\<forall>n\<in>{1..<2}.
           priority_sum b ! n = fadd (priority_sum b ! (2 * n)) (priority_sum b ! (2 * n + 1)) \<and>
           priority_min b ! n = xmin (priority_min b ! (2 * n)) (priority_min b ! (2 * n + 1))))"
proof -
  let ?cs = "[Push tr0, Update [0] [3]]"
  have v: "list_all (valid_call 2) ?cs" by simp
  have f: "list_all (call_fits 1) ?cs" by (simp add: tr0_fits)
  have p: "(0::nat) < 2" by simp
  note t = tree_invariant_after_calls[OF p v, of 1 1]
  have l: "length ?cs = 2" "take 2 ?cs = ?cs" by simp_all
  have ns: "(0::real) \<le> 1 \<and> \<not> list_ex is_sample ?cs \<and> list_all (call_fits 1) ?cs"
    using f by simp
  from t ns have "\<forall>k\<le>length ?cs. \<exists>b. run (init_buffer 2 1 1) (take k ?cs) = Inr b"
    by blast
  then have "\<exists>b. run (init_buffer 2 1 1) (take 2 ?cs) = Inr b"
    using l(1) by (metis order_refl)
  then obtain b where b: "run (init_buffer 2 1 1) (take 2 ?cs) = Inr b" by blast
  from t have "\<forall>k\<le>length ?cs. \<forall>b. run (init_buffer 2 1 1) (take k ?cs) = Inr b \<longrightarrow>
            (\<forall>n\<in>{1..<2}.
               priority_sum b ! n = fadd (priority_sum b ! (2 * n)) (priority_sum b ! (2 * n + 1)) \<and>
               priority_min b ! n = xmin (priority_min b ! (2 * n)) (priority_min b ! (2 * n + 1)))"
    by blast
  with b l(1) have "\<forall>n\<in>{1..<2}.
           priority_sum b ! n = fadd (priority_sum b ! (2 * n)) (priority_sum b ! (2 * n + 1)) \<and>
           priority_min b ! n = xmin (priority_min b ! (2 * n)) (priority_min b ! (2 * n + 1))"
    by (metis order_refl)
  with b v f l(2) show ?thesis by (metis (no_types, lifting))
qed

text \<open>
  C7: \<open>max_priority\<close> starts at 1 and no sequence of \<open>push\<close>, \<open>sample\<close> and
  \<open>update_priorities\<close> calls, from any buffer and with any arguments, ends with a smaller
  value than it started with.
\<close>

theorem max_priority_never_decreases:
  "max_priority (init_buffer cap a sd) = 1 \<and>
   (\<forall>b'. run b cs = Inr b' \<longrightarrow> max_priority b \<le> max_priority b')"
  by (simp add: init_buffer_def run_max_priority)

theorem max_priority_never_decreases_witness:
  "\<exists>b'. run (init_buffer 1 1 1) [Push tr0, Update [0] [5], Push tr5] = Inr b' \<and>
         max_priority (init_buffer 1 1 1) \<le> max_priority b'"
proof -
  let ?cs = "[Push tr0, Update [0] [5], Push tr5]"
  have s: "shape_ok (init_buffer 1 1 1)" by (simp add: init_buffer_ok)
  have "list_all (valid_call (capacity (init_buffer 1 1 1))) ?cs" "0 \<le> alpha (init_buffer 1 1 1)"
    "\<not> list_ex is_sample ?cs" "list_all (call_fits (state_dim (init_buffer 1 1 1))) ?cs"
    by (simp_all add: init_buffer_def tr0_fits tr5_fits)
  from run_total[OF s this] obtain b' where b': "run (init_buffer 1 1 1) ?cs = Inr b'" by blast
  with max_priority_never_decreases[of 1 1 1 "init_buffer 1 1 1" ?cs] show ?thesis by blast
qed

text \<open>
  C9: \<open>sample\<close> hands the buffer back as it found it, the cursor, the size, the maximal
  priority, both trees and the five columns included, and on a buffer of the shape the
  constructor gives it does come back.
\<close>

theorem sample_leaves_buffer:
  "(\<forall>r b'. sample b n rnd beta = Some (r, b') \<longrightarrow> b' = b) \<and>
   (shape_ok b \<longrightarrow> (\<exists>r. sample b n rnd beta = Some (r, b)))"
  using sample_same_buffer sample_total by blast

theorem sample_leaves_buffer_witness:
  "\<exists>b r. run (init_buffer 2 1 1) [Push tr0] = Inr b \<and>
          shape_ok b \<and> sample b 3 (\<lambda>i. 1 / 2) 1 = Some (r, b)"
proof -
  let ?cs = "[Push tr0]"
  have s: "shape_ok (init_buffer 2 1 1)" by (simp add: init_buffer_ok)
  have h: "list_all (valid_call (capacity (init_buffer 2 1 1))) ?cs" "0 \<le> alpha (init_buffer 2 1 1)"
    "\<not> list_ex is_sample ?cs" "list_all (call_fits (state_dim (init_buffer 2 1 1))) ?cs"
    by (simp_all add: init_buffer_def tr0_fits)
  from run_total[OF s h] obtain b where b: "run (init_buffer 2 1 1) ?cs = Inr b" by blast
  from run_preserves[OF s h(1) b] have sb: "shape_ok b" by simp
  with sample_leaves_buffer[of b 3 "\<lambda>i. 1 / 2" 1] b show ?thesis by blast
qed




text \<open>
  C5, as the code has it: pushing \<open>c + k\<close> transitions that the columns take, \<open>k \<ge> 1\<close>,
  into a fresh buffer of capacity \<open>c \<ge> 1\<close> succeeds and leaves the size at the capacity,
  so that \<open>is_full\<close> holds and the length is \<open>c\<close>; the ring then holds the last \<open>c\<close>
  transitions pushed, each as the columns keep it (the reward rounded to \<open>float32\<close>), the
  one pushed as number \<open>i\<close> (counted from 0) at slot \<open>i mod c\<close>. A reward of 0.1 comes back
  from the ring as 13421773 / 2^27.
\<close>

theorem ring_overwrite:
  assumes "0 < c" and "0 < k" and "length ts = c + k"
    and "list_all (call_fits sd) (map Push ts)"
  shows "\<exists>b. run (init_buffer c a sd) (map Push ts) = Inr b \<and>
           size_buf b = capacity b \<and> capacity b = c \<and> is_full b \<and> len_buffer b = c \<and>
           (\<forall>i\<in>{k..<c + k}. stored sd (ts ! i) = Inr (slot b (i mod c)))"
proof -
  from push_sequence[OF assms(1,4), of a] obtain b where
    r: "run (init_buffer c a sd) (map Push ts) = Inr b"
    and cap: "capacity b = c" and sz: "size_buf b = min c (length ts)"
    and sl: "\<forall>i<length ts. length ts \<le> i + c \<longrightarrow> stored sd (ts ! i) = Inr (slot b (i mod c))"
    by blast
  from sz assms have "size_buf b = c" by simp
  moreover from sl assms(3) have "\<forall>i\<in>{k..<c + k}. stored sd (ts ! i) = Inr (slot b (i mod c))"
    by simp
  ultimately show ?thesis using r cap
    by (auto simp: is_full_def len_buffer_def)
qed

theorem ring_overwrite_witness:
  "list_all (call_fits 1) (map Push [tr0, tr_tenth, tr5]) \<and>
   (\<exists>b. run (init_buffer 2 1 1) (map Push [tr0, tr_tenth, tr5]) = Inr b \<and>
        size_buf b = 2 \<and> is_full b \<and> len_buffer b = 2 \<and>
        slot b 1 = tr_tenth32 \<and> slot b 0 = tr5)"
proof -
  let ?ts = "[tr0, tr_tenth, tr5]"
  have h: "(0::nat) < 2" "(0::nat) < 1" "length ?ts = 2 + 1"
    "list_all (call_fits 1) (map Push ?ts)"
    by (simp_all add: tr0_fits tr5_fits tr_tenth_stored)
  from ring_overwrite[OF h, of 1] obtain b where
    r: "run (init_buffer 2 1 1) (map Push ?ts) = Inr b"
    and p: "size_buf b = capacity b" "capacity b = 2" "is_full b" "len_buffer b = 2"
    and sl: "\<forall>i\<in>{1..<2 + 1}. stored 1 (?ts ! i) = Inr (slot b (i mod 2))"
    by blast
  have m: "(1::nat) \<in> {1..<2 + 1}" "(2::nat) \<in> {1..<2 + 1}" by simp_all
  from bspec[OF sl m(1)] bspec[OF sl m(2)]
  have "slot b 1 = tr_tenth32" "slot b 0 = tr5"
    by (simp_all add: tr5_fits tr_tenth_stored)
  with r p h(4) show ?thesis by simp
qed

theorem ring_overwrite_float32_counterexample:
  "run (init_buffer 1 1 1) (map Push [tr0, tr_tenth]) = Inr buf_tenth \<and>
   size_buf buf_tenth = capacity buf_tenth \<and>
   slot buf_tenth (1 mod 1) \<noteq> [tr0, tr_tenth] ! 1 \<and>
   reward (slot buf_tenth (1 mod 1)) = Finite (13421773 / 134217728) \<and>
   reward ([tr0, tr_tenth] ! 1) = Finite (1 / 10)"
proof -
  have "run (init_buffer 1 1 1) (map Push [tr0, tr_tenth]) = Inr buf_tenth"
    by (simp add: eval_rules float32_tenth tr0_def tr_tenth_def buf_tenth_def)
  moreover have "slot buf_tenth (1 mod 1) \<noteq> [tr0, tr_tenth] ! 1"
    "reward (slot buf_tenth (1 mod 1)) = Finite (13421773 / 134217728)"
    "reward ([tr0, tr_tenth] ! 1) = Finite (1 / 10)"
    "size_buf buf_tenth = capacity buf_tenth"
    by (simp_all add: slot_def buf_tenth_def tr_tenth_def)
  ultimately show ?thesis by simp
qed

text \<open>
  C3: with capacity 4 and alpha 1, four pushes give the total 4; after
  \<open>update_priorities([0,1,2,3],[1,2,3,4])\<close> the total is 10 and the minimum 1, the descent
  for 0.5 ends at slot 0 and for 9.9 at slot 3; a fifth push overwrites slot 0, whose
  leaf becomes \<open>max_priority ** alpha = 4\<close>, and the total is 13.
\<close>

theorem scenario_capacity_four:
  "\<exists>b4 b5 b6.
     run (init_buffer 4 1 1) (map Push [tr0, tr0, tr0, tr0]) = Inr b4 \<and>
     sum_root b4 = Inr 4 \<and>
     update_priorities b4 [0, 1, 2, 3] [1, 2, 3, 4] = Inr b5 \<and>
     sum_root b5 = Inr 10 \<and> min_root b5 = Inr (Fin 1) \<and>
     map_option (map_sum id fst) (find_prefix_sum_idx b5 (1 / 2)) = Some (Inr 0) \<and>
     map_option (map_sum id fst) (find_prefix_sum_idx b5 (99 / 10)) = Some (Inr 3) \<and>
     push b5 tr5 = Inr (PyNone, b6) \<and>
     slot b4 0 = tr0 \<and> slot b6 0 = tr5 \<and>
     py_pow (max_priority b5) (alpha b5) = Inr 4 \<and>
     priority_sum b6 ! (0 + capacity b6) = 4 \<and>
     priority_min b6 ! (0 + capacity b6) = Fin 4 \<and>
     sum_root b6 = Inr 13"
proof -
  have "sum_root buf4 = Inr 4"
    by (simp add: sum_root_def list_get_def buf4_def)
  moreover have "sum_root buf5 = Inr 10" "min_root buf5 = Inr (Fin 1)"
    by (simp_all add: sum_root_def min_root_def list_get_def buf5_def buf4_def)
  moreover have "slot buf4 0 = tr0" "slot buf6 0 = tr5"
    by (simp_all add: slot_def buf6_def buf5_def buf4_def tr0_def tr5_def)
  moreover have "py_pow (max_priority buf5) (alpha buf5) = Inr 4"
    by (simp add: py_pow_one buf5_def buf4_def)
  moreover have "priority_sum buf6 ! (0 + capacity buf6) = 4"
    "priority_min buf6 ! (0 + capacity buf6) = Fin 4" "sum_root buf6 = Inr 13"
    by (simp_all add: sum_root_def list_get_def buf6_def buf5_def buf4_def)
  ultimately show ?thesis
    using run_buf4 update_buf5 push_buf6 find_buf5_low find_buf5_high by simp
qed

text \<open>
  C2, as the code has it: when the capacity is a power of two, the sum tree satisfies
  its invariant, the leaf values and \<open>p\<close> are non-negative multiples of one power of two
  \<open>2 ^ j\<close>, \<open>j \<ge> -1074\<close>, with the leaf total below \<open>2 ^ (53 + j)\<close> (so that no addition in
  the tree and no subtraction of the descent rounds), and \<open>p < total_sum()\<close>, then
  \<open>find_prefix_sum_idx(p)\<close> returns a slot \<open>i\<close> with the cumulative sum of the slots
  \<open>[0, i)\<close> at most \<open>p\<close> and \<open>p\<close> below the cumulative sum of the slots \<open>[0, i]\<close>. With
  capacity 3 and the leaves 1, 2, 3 the descent for 0.5 ends at slot 1; and where an
  addition has rounded the boundary can move, as \<open>descent_rounding\<close> shows for capacity 4.
\<close>

theorem find_prefix_sum_idx_power_of_two:
  assumes "capacity b = 2 ^ k" and "length (priority_sum b) = 2 * capacity b"
    and "tree_inv fadd (capacity b) (priority_sum b)"
    and "- 1074 \<le> j" and "\<forall>i\<in>{0..<capacity b}. grid j (leaf b i)"
    and "cumulative b (capacity b) < 2 ^ 53 * 2 powi j"
    and "grid j p" and "sum_root b = Inr s" and "p < s"
  shows "\<exists>i reads. find_prefix_sum_idx b p = Some (Inr (i, reads)) \<and> i < capacity b \<and>
           cumulative b i \<le> p \<and> p < cumulative b (i + 1)"
proof -
  let ?c = "capacity b" and ?ps = "priority_sum b"
  from assms(8) have s: "s = ?ps ! 1" by (auto simp: sum_root_def list_get_def split: if_splits)
  from assms(1) have lo: "?c \<le> 1 * 2 ^ k" and hi: "(1 + 1) * 2 ^ k \<le> 2 * ?c" by simp_all
  have leaves: "\<forall>l\<in>{?c..<2 * ?c}. grid j (?ps ! l)"
  proof
    fix l assume l: "l \<in> {?c..<2 * ?c}"
    then have "l - ?c \<in> {0..<?c}" by auto
    with assms(5) have "grid j (leaf b (l - ?c))" by blast
    with l show "grid j (?ps ! l)" by (simp add: leaf_def)
  qed
  have total: "sum ((!) ?ps) {?c..<2 * ?c} < 2 ^ 53 * 2 powi j"
    using assms(6) by (simp add: cumulative_sum mult_2)
  from assms(9) s have "p < ?ps ! 1" by simp
  from find_aligned[OF assms(3,2,4) leaves total lo hi assms(7) this, of "[]"] obtain i tr where
    f: "find_prefix_loop ?c ?ps 1 p [] = Some (Inr (i, tr))"
    and b: "i + ?c < (1 + 1) * 2 ^ k"
    and c: "sum ((!) ?ps) {1 * 2 ^ k..<i + ?c} \<le> p" "p < sum ((!) ?ps) {1 * 2 ^ k..<i + ?c + 1}"
    by blast
  from b assms(1) have "i < ?c" by simp
  moreover from c assms(1) have "cumulative b i \<le> p" "p < cumulative b (i + 1)"
    by (simp_all add: cumulative_sum)
  ultimately show ?thesis using f by (simp add: find_prefix_sum_idx_def)
qed

theorem find_prefix_sum_idx_power_of_two_witness:
  "capacity buf5 = 2 ^ 2 \<and> length (priority_sum buf5) = 2 * capacity buf5 \<and>
   tree_inv fadd (capacity buf5) (priority_sum buf5) \<and>
   grid (- 1) (leaf buf5 0) \<and> grid (- 1) (leaf buf5 1) \<and>
   grid (- 1) (leaf buf5 2) \<and> grid (- 1) (leaf buf5 3) \<and>
   cumulative buf5 (capacity buf5) < 2 ^ 53 * 2 powi (- 1) \<and>
   grid (- 1) (7 / 2) \<and> sum_root buf5 = Inr 10 \<and>
   (\<exists>i reads. find_prefix_sum_idx buf5 (7 / 2) = Some (Inr (i, reads)) \<and> i < capacity buf5 \<and>
      cumulative buf5 i \<le> 7 / 2 \<and> 7 / 2 < cumulative buf5 (i + 1))"
proof -
  have h: "capacity buf5 = 2 ^ 2" "length (priority_sum buf5) = 2 * capacity buf5"
    "tree_inv fadd (capacity buf5) (priority_sum buf5)" "(- 1074 :: int) \<le> - 1"
    by (simp_all add: buf5_def buf4_def tree_inv_upt upt_conv_Cons fadd_def)
  have l: "grid (- 1) (leaf buf5 0)" "grid (- 1) (leaf buf5 1)"
    "grid (- 1) (leaf buf5 2)" "grid (- 1) (leaf buf5 3)"
    by (simp_all add: buf5_def buf4_def leaf_def grid_def power_int_minus)
  have "[0..<capacity buf5] = [0, 1, 2, 3]"
    by (simp add: buf5_def buf4_def upt_conv_Cons)
  with l have "list_all (\<lambda>i. grid (- 1) (leaf buf5 i)) [0..<capacity buf5]"
    by simp
  then have g: "\<forall>i\<in>{0..<capacity buf5}. grid (- 1) (leaf buf5 i)"
    by (simp add: list_all_iff)
  have t: "cumulative buf5 (capacity buf5) < 2 ^ 53 * 2 powi (- 1)"
    "grid (- 1) (7 / 2)" "sum_root buf5 = Inr 10" "(7::real) / 2 < 10"
    by (simp_all add: buf5_def buf4_def cumulative_def leaf_def upt_conv_Cons grid_def
        power_int_minus sum_root_def list_get_def)
  from find_prefix_sum_idx_power_of_two[OF h g t] h(1,2,3) l t(1,2,3) show ?thesis by blast
qed

theorem find_prefix_sum_idx_capacity_three_counterexample:
  "run (init_buffer 3 1 1) [Push tr0, Push tr0, Push tr0, Update [0, 1, 2] [1, 2, 3]] = Inr buf3 \<and>
   tree_inv fadd (capacity buf3) (priority_sum buf3) \<and>
   sum_root buf3 = Inr 6 \<and> (0::real) \<le> 1 / 2 \<and> (1::real) / 2 < 6 \<and>
   find_prefix_sum_idx buf3 (1 / 2) = Some (Inr (1, [2, 4])) \<and>
   \<not> cumulative buf3 1 \<le> 1 / 2"
proof -
  have "tree_inv fadd (capacity buf3) (priority_sum buf3)"
    by (simp add: buf3_def tree_inv_upt upt_conv_Cons fadd_def)
  moreover have "sum_root buf3 = Inr 6"
    by (simp add: sum_root_def list_get_def buf3_def)
  moreover have "find_prefix_sum_idx buf3 (1 / 2) = Some (Inr (1, [2, 4]))"
    by (simp add: find_prefix_sum_idx_def buf3_def find_left find_right find_stop)
  moreover have "\<not> cumulative buf3 1 \<le> 1 / 2"
    by (simp add: cumulative_def leaf_def buf3_def)
  ultimately show ?thesis using run_buf3 by simp
qed




text \<open>
  C8: with \<open>beta = 0\<close> every weight that \<open>sample\<close> returns is 1, and it does return on a
  buffer whose total is not zero and whose minimum is finite (capacity at most \<open>2 ^ 30\<close>);
  with \<open>alpha = 0\<close> the leaf that \<open>push\<close> writes and every leaf that \<open>update_priorities\<close>
  writes is 1 in both trees. The formulas are the general ones: \<open>x ** 0\<close> is 1.
\<close>

theorem zero_exponents:
  "(\<forall>s b'. sample b n rnd 0 = Some (Inr s, b') \<longrightarrow> (\<forall>w\<in>set (weights s). w = Finite 1)) \<and>
   (shape_ok b \<and> capacity b \<le> 2 ^ 30 \<and> priority_sum b ! 1 \<noteq> 0 \<and> priority_min b ! 1 \<noteq> PInf \<longrightarrow>
      (\<exists>s. sample b n rnd 0 = Some (Inr s, b) \<and> length (weights s) = n)) \<and>
   (shape_ok b \<and> alpha b = 0 \<longrightarrow>
      (\<forall>t'. stored (state_dim b) t = Inr t' \<longrightarrow>
         (\<exists>b'. push b t = Inr (PyNone, b') \<and> leaf b' (next_idx b) = 1 \<and>
               priority_min b' ! (next_idx b + capacity b) = Fin 1))) \<and>
   (shape_ok b \<and> alpha b = 0 \<and>
    list_all (\<lambda>(i, p). i < capacity b \<and> 0 \<le> p) (zip idxs ps) \<longrightarrow>
      (\<exists>b'. update_priorities b idxs ps = Inr b' \<and>
            (\<forall>i\<in>fst ` set (zip idxs ps).
               leaf b' i = 1 \<and> priority_min b' ! (i + capacity b) = Fin 1)))"
proof -
  have u: "\<exists>b'. update_priorities b idxs ps = Inr b' \<and>
            (\<forall>i\<in>fst ` set (zip idxs ps).
               leaf b' i = 1 \<and> priority_min b' ! (i + capacity b) = Fin 1)"
    if h: "shape_ok b" "alpha b = 0"
      "list_all (\<lambda>(i, p). i < capacity b \<and> 0 \<le> p) (zip idxs ps)"
  proof -
    from update_loop_alpha_zero[OF h] obtain b' where
      u: "update_priorities_loop b (zip idxs ps) = Inr b'"
      and l: "\<forall>j<capacity b.
              j \<in> fst ` set (zip idxs ps) \<or>
              (leaf b j = 1 \<and> priority_min b ! (j + capacity b) = Fin 1) \<longrightarrow>
              leaf b' j = 1 \<and> priority_min b' ! (j + capacity b) = Fin 1"
      by blast
    have "leaf b' i = 1 \<and> priority_min b' ! (i + capacity b) = Fin 1"
      if "i \<in> fst ` set (zip idxs ps)" for i
    proof -
      from that h(3) have "i < capacity b" by (auto simp: list_all_iff)
      with l that show ?thesis by blast
    qed
    with u show ?thesis by (auto simp: update_priorities_def)
  qed
  have a: "\<forall>s b'. sample b n rnd 0 = Some (Inr s, b') \<longrightarrow> (\<forall>w\<in>set (weights s). w = Finite 1)"
    using sample_beta_zero[of b n rnd] by blast
  have t: "shape_ok b \<and> capacity b \<le> 2 ^ 30 \<and> priority_sum b ! 1 \<noteq> 0 \<and>
           priority_min b ! 1 \<noteq> PInf \<longrightarrow>
      (\<exists>s. sample b n rnd 0 = Some (Inr s, b) \<and> length (weights s) = n)"
    using sample_beta_zero_total[of b n rnd] by blast
  have p: "shape_ok b \<and> alpha b = 0 \<longrightarrow>
      (\<forall>t'. stored (state_dim b) t = Inr t' \<longrightarrow>
         (\<exists>b'. push b t = Inr (PyNone, b') \<and> leaf b' (next_idx b) = 1 \<and>
               priority_min b' ! (next_idx b + capacity b) = Fin 1))"
    using push_alpha_zero[of b t] by blast
  from u have u': "shape_ok b \<and> alpha b = 0 \<and>
    list_all (\<lambda>(i, p). i < capacity b \<and> 0 \<le> p) (zip idxs ps) \<longrightarrow>
      (\<exists>b'. update_priorities b idxs ps = Inr b' \<and>
            (\<forall>i\<in>fst ` set (zip idxs ps).
               leaf b' i = 1 \<and> priority_min b' ! (i + capacity b) = Fin 1))"
    by blast
  show ?thesis by (intro conjI) (rule a, rule t, rule p, rule u')
qed

theorem zero_exponents_witness:
  "(\<exists>s. sample buf5 2 (\<lambda>i. 1 / 2) 0 = Some (Inr s, buf5) \<and> length (weights s) = 2 \<and>
      (\<forall>w\<in>set (weights s). w = Finite 1)) \<and>
   (\<exists>b'. push (init_buffer 2 0 1) tr0 = Inr (PyNone, b') \<and> leaf b' 0 = 1 \<and>
      priority_min b' ! 2 = Fin 1) \<and>
   (\<exists>b'. update_priorities (init_buffer 2 0 1) [1] [5] = Inr b' \<and> leaf b' 1 = 1 \<and>
      priority_min b' ! 3 = Fin 1)"
proof -
  have s5: "shape_ok buf5 \<and> capacity buf5 \<le> 2 ^ 30 \<and> priority_sum buf5 ! 1 \<noteq> 0 \<and>
            priority_min buf5 ! 1 \<noteq> PInf"
    by (simp add: shape_ok_def buf5_def buf4_def)
  have s0: "shape_ok (init_buffer 2 0 1)" by (simp add: init_buffer_ok)
  have a0: "alpha (init_buffer 2 0 1) = 0" "next_idx (init_buffer 2 0 1) = 0"
    "capacity (init_buffer 2 0 1) = 2"
    by (simp_all add: init_buffer_def)
  have f0: "stored (state_dim (init_buffer 2 0 1)) tr0 = Inr tr0"
    by (simp add: init_buffer_def)
  have v0: "list_all (\<lambda>(i, p). i < capacity (init_buffer 2 0 1) \<and> (0::real) \<le> p) (zip [1] [5])"
    by (simp add: init_buffer_def)
  note t5 = zero_exponents[of buf5 2 "\<lambda>i. 1 / 2" tr0 "[]" "[]"]
  note t0 = zero_exponents[of "init_buffer 2 0 1" 0 "\<lambda>i. 0" tr0 "[1]" "[5]"]
  from t5 s5 obtain s where
    s: "sample buf5 2 (\<lambda>i. 1 / 2) 0 = Some (Inr s, buf5)" "length (weights s) = 2"
    by blast
  with t5 have w: "\<forall>w\<in>set (weights s). w = Finite 1" by blast
  from t0 s0 a0(1) f0 obtain b1 where
    b1: "push (init_buffer 2 0 1) tr0 = Inr (PyNone, b1)"
      "leaf b1 (next_idx (init_buffer 2 0 1)) = 1"
      "priority_min b1 ! (next_idx (init_buffer 2 0 1) + capacity (init_buffer 2 0 1)) = Fin 1"
    by blast
  from b1(2,3)[unfolded a0(2,3)] have b1': "leaf b1 0 = 1" "priority_min b1 ! 2 = Fin 1"
    by (simp_all add: numeral_2_eq_2)
  from t0 s0 a0(1) v0 obtain b2 where
    b2: "update_priorities (init_buffer 2 0 1) [1] [5] = Inr b2"
    and l2: "\<forall>i\<in>fst ` set (zip [1] [5::real]).
               leaf b2 i = 1 \<and> priority_min b2 ! (i + capacity (init_buffer 2 0 1)) = Fin 1"
    by blast
  from l2 a0(3) have "leaf b2 1 = 1" "priority_min b2 ! 3 = Fin 1" by simp_all
  with s w b1(1) b1' b2 show ?thesis by blast
qed

end
